theory Spec2Isabelle
  imports Main
begin

section \<open>Python strings\<close>

text \<open>
  A Python \<open>str\<close> is a sequence of Unicode code points, so it is modelled as a list of
  natural numbers; \<open>len\<close> is \<open>length\<close>. String literals of the source are written
  \<open>lit ''...''\<close>. \<open>str.lower\<close> depends on the Unicode case tables and is passed to
  every function that calls it as the parameter \<open>lower\<close>; \<open>ascii_lower\<close> is what it does
  on ASCII text and is used for concrete runs.
\<close>

type_synonym codepoint = nat
type_synonym str = "codepoint list"

definition lit :: "string \<Rightarrow> str" where
  "lit x = map of_char x"

definition ascii_lower :: "str \<Rightarrow> str" where
  "ascii_lower t = map (\<lambda>c. if 65 \<le> c \<and> c \<le> 90 then c + 32 else c) t"

definition startswith :: "str \<Rightarrow> str \<Rightarrow> bool" where
  "startswith t p = (take (length p) t = p)"

definition endswith :: "str \<Rightarrow> str \<Rightarrow> bool" where
  "endswith t p = (length p \<le> length t \<and> drop (length t - length p) t = p)"

text \<open>\<open>k in t\<close> for strings: \<open>k\<close> occurs as a contiguous substring of \<open>t\<close>.\<close>

fun contains :: "str \<Rightarrow> str \<Rightarrow> bool" where
  "contains [] k = (k = [])"
| "contains (c # cs) k = (startswith (c # cs) k \<or> contains cs k)"

text \<open>\<open>t.split(sep)\<close> for a one-character separator: never the empty list.\<close>

fun split_chr :: "codepoint \<Rightarrow> str \<Rightarrow> str list" where
  "split_chr sep [] = [[]]"
| "split_chr sep (c # cs) =
     (if c = sep then [] # split_chr sep cs
      else (case split_chr sep cs of
              [] \<Rightarrow> [[c]]
            | w # ws \<Rightarrow> (c # w) # ws))"

text \<open>\<open>sep.join(parts)\<close>.\<close>

fun join :: "str \<Rightarrow> str list \<Rightarrow> str" where
  "join sep [] = []"
| "join sep [x] = x"
| "join sep (x # y # ys) = x @ sep @ join sep (y # ys)"

definition lstrip_chr :: "codepoint \<Rightarrow> str \<Rightarrow> str" where
  "lstrip_chr c t = dropWhile (\<lambda>x. x = c) t"

definition rstrip_chr :: "codepoint \<Rightarrow> str \<Rightarrow> str" where
  "rstrip_chr c t = rev (dropWhile (\<lambda>x. x = c) (rev t))"

abbreviation slash :: codepoint where
  "slash \<equiv> 47"

abbreviation dot :: codepoint where
  "dot \<equiv> 46"

section \<open>posixpath\<close>

text \<open>
  The functions of the standard module \<open>posixpath\<close> that the handler calls, following
  their CPython definitions.
\<close>

text \<open>\<open>basename(p) = p[p.rfind('/') + 1:]\<close>.\<close>

definition basename :: "str \<Rightarrow> str" where
  "basename p = rev (takeWhile (\<lambda>c. c \<noteq> slash) (rev p))"

text \<open>
  \<open>dirname(p)\<close>: the part up to and including the last slash, with trailing slashes
  removed unless it consists of slashes only.
\<close>

definition dirname :: "str \<Rightarrow> str" where
  "dirname p =
     (let head = take (length p - length (basename p)) p
      in if head \<noteq> [] \<and> head \<noteq> replicate (length head) slash
         then rstrip_chr slash head else head)"

text \<open>
  \<open>normpath\<close>: the loop over the components keeps a stack \<open>new_comps\<close> (here reversed,
  the last component first); \<open>initial_slashes\<close> is 0, 1 or 2.
\<close>

definition initial_slashes :: "str \<Rightarrow> nat" where
  "initial_slashes p =
     (if startswith p [slash] then
        (if startswith p [slash, slash] \<and> \<not> startswith p [slash, slash, slash] then 2 else 1)
      else 0)"

fun normpath_comps :: "nat \<Rightarrow> str list \<Rightarrow> str list \<Rightarrow> str list" where
  "normpath_comps ini stack [] = rev stack"
| "normpath_comps ini stack (seg # segs) =
     (if seg = [] \<or> seg = [dot] then normpath_comps ini stack segs
      else if seg \<noteq> [dot, dot] \<or> (ini = 0 \<and> stack = [])
                \<or> (stack \<noteq> [] \<and> hd stack = [dot, dot])
        then normpath_comps ini (seg # stack) segs
      else if stack \<noteq> [] then normpath_comps ini (tl stack) segs
      else normpath_comps ini stack segs)"

definition normpath :: "str \<Rightarrow> str" where
  "normpath p =
     (if p = [] then [dot]
      else
        (let ini = initial_slashes p;
             path = join [slash] (normpath_comps ini [] (split_chr slash p));
             path' = (if ini \<noteq> 0 then replicate ini slash @ path else path)
         in if path' = [] then [dot] else path'))"

text \<open>
  \<open>splitext(p)[1]\<close>: the extension starts at the last dot of the last component, unless
  only dots precede it there.
\<close>

definition splitext_ext :: "str \<Rightarrow> str" where
  "splitext_ext p =
     (let b = basename p;
          stem = rev (tl (dropWhile (\<lambda>c. c \<noteq> dot) (rev b)));
          ext = dot # rev (takeWhile (\<lambda>c. c \<noteq> dot) (rev b))
      in if dot \<in> set b \<and> (\<exists>c \<in> set stem. c \<noteq> dot) then ext else [])"

section \<open>Path classifier\<close>

definition SKIP_DIRS :: "str list" where
  "SKIP_DIRS = map lit
     [''node_modules'', ''.git'', ''.idea'', ''.vscode'',
      ''build'', ''dist'', ''target'', ''.gradle'', ''.next'', ''.cache'', ''.turbo'',
      ''__MACOSX'']"

definition SKIP_PREFIXES :: "str list" where
  "SKIP_PREFIXES = map lit [''./'', ''._'']"

definition SENSITIVE_KEYS :: "str list" where
  "SENSITIVE_KEYS = map lit
     [''secret'', ''password'', ''passwd'', ''token'', ''apikey'', ''access_key'', ''secret_key'']"

definition PROJECT_ROOT_MARKERS :: "str list" where
  "PROJECT_ROOT_MARKERS = map lit
     [''package.json'', ''pom.xml'', ''build.gradle'', ''build.gradle.kts'',
      ''settings.gradle'', ''settings.gradle.kts'', ''requirements.txt'',
      ''pyproject.toml'', ''go.mod'', ''Gemfile'', ''Cargo.toml'',
      ''Dockerfile'', ''docker-compose.yml'', ''docker-compose.yaml'',
      ''main.tf'', ''versions.tf'']"

definition SIGNAL_BASENAMES :: "str list" where
  "SIGNAL_BASENAMES = map lit
     [''package.json'', ''pnpm-lock.yaml'', ''yarn.lock'', ''pom.xml'',
      ''build.gradle'', ''build.gradle.kts'', ''settings.gradle'', ''settings.gradle.kts'',
      ''requirements.txt'', ''pyproject.toml'', ''Pipfile'', ''Pipfile.lock'',
      ''go.mod'', ''Gemfile'', ''Cargo.toml'', ''Cargo.lock'',
      ''Dockerfile'', ''docker-compose.yml'', ''docker-compose.yaml'',
      ''.gitlab-ci.yml'', ''.travis.yml'', ''cdk.json'']"

definition SIGNAL_SUFFIXES :: "str list" where
  "SIGNAL_SUFFIXES = map lit
     [''.tf'', ''.tfvars'', ''.tf.json'', ''.tfvars.json'', ''.yaml'', ''.yml'', ''.properties'']"

definition SIGNAL_PATH_PARTS :: "str list" where
  "SIGNAL_PATH_PARTS = map lit [''.github/workflows'', ''src/main/resources'']"

definition should_skip_path :: "str \<Rightarrow> bool" where
  "should_skip_path path =
     (let norm = lstrip_chr slash (normpath path)
      in if endswith norm (lit ''/'') then True
         else if list_ex (\<lambda>p. startswith norm p) SKIP_PREFIXES then True
         else if list_ex (\<lambda>part. part \<in> set SKIP_DIRS) (butlast (split_chr slash norm)) then True
         else if startswith (basename norm) (lit ''._'') then True
         else False)"

definition is_signal_path :: "(str \<Rightarrow> str) \<Rightarrow> str \<Rightarrow> bool" where
  "is_signal_path lower path =
     (let b = basename path
      in if b \<in> set SIGNAL_BASENAMES then True
         else if startswith b (lit ''Dockerfile'') then True
         else if startswith (lower b) (lit ''readme'') then True
         else if startswith b (lit ''application'')
                 \<and> (endswith b (lit ''.yml'') \<or> endswith b (lit ''.yaml'')
                      \<or> endswith b (lit ''.properties'')) then True
         else if list_ex (\<lambda>suf. endswith b suf) SIGNAL_SUFFIXES then True
         else if list_ex (\<lambda>p. p \<in> set (split_chr slash path)) SIGNAL_PATH_PARTS then True
         else False)"

section \<open>Properties of the path classifier\<close>

lemma markers_all_signal:
  "list_all (\<lambda>b. b \<in> set SIGNAL_BASENAMES \<or> endswith b (lit ''.tf'')) PROJECT_ROOT_MARKERS"
  by code_simp

lemma marker_is_signal_basename:
  "b \<in> set PROJECT_ROOT_MARKERS \<Longrightarrow>
     b \<in> set SIGNAL_BASENAMES \<or> endswith b (lit ''.tf'')"
  using markers_all_signal by (simp add: list_all_iff)

text \<open>
  Every path whose basename is one of the project-root markers is classified as a signal
  path: the marker set is contained in the signal classification. Whether the root that a
  marker file registers also holds that file is a matter of \<open>detect_project_roots\<close>.
\<close>

theorem markers_are_signal_paths:
  "basename path \<in> set PROJECT_ROOT_MARKERS \<Longrightarrow> is_signal_path lower path"
proof -
  assume m: "basename path \<in> set PROJECT_ROOT_MARKERS"
  from marker_is_signal_basename [OF m]
  show ?thesis
  proof
    assume "basename path \<in> set SIGNAL_BASENAMES"
    then show ?thesis by (simp add: is_signal_path_def)
  next
    assume "endswith (basename path) (lit ''.tf'')"
    then have "list_ex (\<lambda>suf. endswith (basename path) suf) SIGNAL_SUFFIXES"
      by (simp add: SIGNAL_SUFFIXES_def)
    then show ?thesis by (simp add: is_signal_path_def Let_def)
  qed
qed

theorem markers_are_signal_paths_witness:
  "basename (lit ''infra/main.tf'') \<in> set PROJECT_ROOT_MARKERS
   \<and> is_signal_path ascii_lower (lit ''infra/main.tf'')"
proof -
  have m: "basename (lit ''infra/main.tf'') \<in> set PROJECT_ROOT_MARKERS"
    by code_simp
  from m markers_are_signal_paths [OF m] show ?thesis by simp
qed

section \<open>Project detection\<close>

text \<open>
  \<open>detect_project_roots\<close> builds a dictionary from root to a set of paths. The dictionary
  is an association list in insertion order (the order in which Python iterates it); each
  set is kept as a duplicate-free list of its members.
\<close>

type_synonym projects = "(str \<times> str list) list"

text \<open>First loop: the directories of marker files, in order of first registration.\<close>

fun register_roots :: "str list \<Rightarrow> str list \<Rightarrow> str list" where
  "register_roots roots [] = roots"
| "register_roots roots (path # paths) =
     (if should_skip_path path \<or> endswith path (lit ''/'') then register_roots roots paths
      else if basename path \<in> set PROJECT_ROOT_MARKERS then
        (let d = dirname path;
             dir_path = (if d = [] then lit ''.'' else d)
         in if dir_path \<notin> set roots then register_roots (roots @ [dir_path]) paths
            else register_roots roots paths)
      else register_roots roots paths)"

text \<open>The registered roots, or the single root \<open>.\<close> when no marker was found.\<close>

definition candidate_roots :: "str list \<Rightarrow> str list" where
  "candidate_roots all_paths =
     (let roots = register_roots [] all_paths
      in if roots = [] then [lit ''.''] else roots)"

text \<open>The test \<open>root == "." or path.startswith(root + "/") or path == root\<close>.\<close>

definition root_matches :: "str \<Rightarrow> str \<Rightarrow> bool" where
  "root_matches root path =
     (root = lit ''.'' \<or> startswith path (root @ lit ''/'') \<or> path = root)"

text \<open>
  The inner loop over the roots, with its two variables \<open>assigned_root\<close> and
  \<open>max_depth\<close> (initially \<open>None\<close> and \<open>-1\<close>).
\<close>

fun find_root :: "str \<Rightarrow> str list \<Rightarrow> str option \<times> int \<Rightarrow> str option \<times> int" where
  "find_root path [] st = st"
| "find_root path (root # roots) (assigned, max_depth) =
     (if root_matches root path then
        (let depth = int (count_list root slash)
         in if depth > max_depth then find_root path roots (Some root, depth)
            else find_root path roots (assigned, max_depth))
      else find_root path roots (assigned, max_depth))"

definition assigned_root :: "str \<Rightarrow> str list \<Rightarrow> str option" where
  "assigned_root path roots = fst (find_root path roots (None, - 1))"

text \<open>\<open>project_roots[root].add(path)\<close>.\<close>

fun add_path :: "str \<Rightarrow> str \<Rightarrow> projects \<Rightarrow> projects" where
  "add_path root path [] = []"
| "add_path root path ((k, files) # rest) =
     (if k = root then (k, if path \<in> set files then files else files @ [path]) # rest
      else (k, files) # add_path root path rest)"

text \<open>
  Second loop. \<open>if assigned_root:\<close> is false for \<open>None\<close> and for the empty string.
\<close>

fun assign_paths :: "projects \<Rightarrow> str list \<Rightarrow> projects" where
  "assign_paths project_roots [] = project_roots"
| "assign_paths project_roots (path # paths) =
     (if should_skip_path path \<or> endswith path (lit ''/'') then assign_paths project_roots paths
      else (case assigned_root path (map fst project_roots) of
              None \<Rightarrow> assign_paths project_roots paths
            | Some root \<Rightarrow>
                if root \<noteq> [] then assign_paths (add_path root path project_roots) paths
                else assign_paths project_roots paths))"

definition detect_project_roots :: "str list \<Rightarrow> projects" where
  "detect_project_roots all_paths =
     filter (\<lambda>(k, v). v \<noteq> [])
       (assign_paths (map (\<lambda>root. (root, [])) (candidate_roots all_paths)) all_paths)"

subsection \<open>Properties of the detection\<close>

text \<open>The set stored under a key of the dictionary (empty when the key is absent).\<close>

definition files_of :: "projects \<Rightarrow> str \<Rightarrow> str set" where
  "files_of pr k = (case map_of pr k of None \<Rightarrow> {} | Some fs \<Rightarrow> set fs)"

lemma find_root_inv:
  "find_root path roots (a, m) = (a', m') \<Longrightarrow>
     m \<le> m'
     \<and> ((a' = a \<and> m' = m)
         \<or> (\<exists>r \<in> set roots. a' = Some r \<and> root_matches r path \<and> m' = int (count_list r slash)))
     \<and> (\<forall>r \<in> set roots. root_matches r path \<longrightarrow> int (count_list r slash) \<le> m')"
proof (induction roots arbitrary: a m)
  case Nil
  then show ?case by simp
next
  case (Cons root roots)
  show ?case
  proof (cases "root_matches root path \<and> int (count_list root slash) > m")
    case True
    with Cons.prems have "find_root path roots (Some root, int (count_list root slash)) = (a', m')"
      by (simp add: Let_def)
    from Cons.IH [OF this] True show ?thesis by auto
  next
    case False
    with Cons.prems have "find_root path roots (a, m) = (a', m')"
      by (auto simp: Let_def split: if_splits)
    from Cons.IH [OF this] False show ?thesis by auto
  qed
qed

lemma assigned_root_Some:
  assumes "assigned_root path roots = Some r"
  shows "r \<in> set roots \<and> root_matches r path
         \<and> (\<forall>r' \<in> set roots. root_matches r' path \<longrightarrow> count_list r' slash \<le> count_list r slash)"
proof -
  obtain a' m' where fr: "find_root path roots (None, - 1) = (a', m')"
    by (cases "find_root path roots (None, - 1)")
  with assms have a': "a' = Some r" by (simp add: assigned_root_def)
  from find_root_inv [OF fr] a' show ?thesis by auto
qed

lemma assigned_root_None:
  assumes "assigned_root path roots = None" and "r \<in> set roots"
  shows "\<not> root_matches r path"
proof -
  obtain a' m' where fr: "find_root path roots (None, - 1) = (a', m')"
    by (cases "find_root path roots (None, - 1)")
  with assms have a': "a' = None" by (simp add: assigned_root_def)
  from find_root_inv [OF fr] a' have "m' = - 1"
    and "\<forall>r \<in> set roots. root_matches r path \<longrightarrow> int (count_list r slash) \<le> m'" by auto
  with assms(2) show ?thesis by fastforce
qed

lemma map_fst_add_path: "map fst (add_path root path pr) = map fst pr"
  by (induction pr) auto

lemma map_fst_assign_paths: "map fst (assign_paths pr ps) = map fst pr"
proof (induction ps arbitrary: pr)
  case Nil
  then show ?case by simp
next
  case (Cons p ps)
  show ?case
  proof (cases "should_skip_path p \<or> endswith p (lit ''/'')")
    case True
    then show ?thesis using Cons.IH [of pr] by auto
  next
    case False
    show ?thesis
    proof (cases "assigned_root p (map fst pr)")
      case None
      then show ?thesis using False Cons.IH [of pr] by simp
    next
      case (Some root)
      then show ?thesis
        using False Cons.IH [of pr] Cons.IH [of "add_path root p pr"]
        by (simp add: map_fst_add_path)
    qed
  qed
qed

lemma files_of_add_path:
  "q \<in> files_of (add_path root path pr) k \<longleftrightarrow>
     q \<in> files_of pr k \<or> (q = path \<and> k = root \<and> root \<in> set (map fst pr))"
proof (induction pr)
  case Nil
  then show ?case by (simp add: files_of_def)
next
  case (Cons e pr)
  obtain k' fs where e: "e = (k', fs)" by (cases e)
  show ?case
  proof (cases "k' = root")
    case True
    then show ?thesis using e by (auto simp: files_of_def)
  next
    case False
    then show ?thesis using e Cons.IH by (auto simp: files_of_def)
  qed
qed

lemma files_of_assign_paths:
  "q \<in> files_of (assign_paths pr ps) k \<longleftrightarrow>
     q \<in> files_of pr k \<or>
     (q \<in> set ps \<and> \<not> should_skip_path q \<and> \<not> endswith q (lit ''/'')
        \<and> assigned_root q (map fst pr) = Some k \<and> k \<noteq> [])"
proof (induction ps arbitrary: pr)
  case Nil
  then show ?case by simp
next
  case (Cons p ps)
  show ?case
  proof (cases "should_skip_path p \<or> endswith p (lit ''/'')")
    case True
    then have "assign_paths pr (p # ps) = assign_paths pr ps" by auto
    then show ?thesis using True Cons.IH [of pr] by auto
  next
    case False
    show ?thesis
    proof (cases "assigned_root p (map fst pr)")
      case None
      then have "assign_paths pr (p # ps) = assign_paths pr ps" using False by simp
      then show ?thesis using None Cons.IH [of pr] by auto
    next
      case (Some root)
      then have rin: "root \<in> set (map fst pr)" using assigned_root_Some [OF Some] by simp
      show ?thesis
      proof (cases "root = []")
        case True
        then have "assign_paths pr (p # ps) = assign_paths pr ps" using False Some by simp
        then show ?thesis using True Some Cons.IH [of pr] by auto
      next
        case nonempty: False
        have eq: "assign_paths pr (p # ps) = assign_paths (add_path root p pr) ps"
          using False Some nonempty by simp
        have "q \<in> files_of (assign_paths (add_path root p pr) ps) k \<longleftrightarrow>
                q \<in> files_of (add_path root p pr) k \<or>
                (q \<in> set ps \<and> \<not> should_skip_path q \<and> \<not> endswith q (lit ''/'')
                  \<and> assigned_root q (map fst pr) = Some k \<and> k \<noteq> [])"
          using Cons.IH [of "add_path root p pr"] by (simp only: map_fst_add_path)
        then show ?thesis
          unfolding eq files_of_add_path using False Some nonempty rin by auto
      qed
    qed
  qed
qed

lemma register_roots_distinct:
  "distinct roots \<Longrightarrow> distinct (register_roots roots ps)"
  by (induction ps arbitrary: roots) (simp_all add: Let_def)

lemma lit_dot_nonempty: "lit ''.'' \<noteq> []" "[] \<noteq> lit ''.''"
  by (simp_all add: lit_def)

lemma register_roots_nonempty:
  "[] \<notin> set roots \<Longrightarrow> [] \<notin> set (register_roots roots ps)"
proof (induction ps arbitrary: roots)
  case Nil
  then show ?case by simp
next
  case (Cons p ps)
  have a: "[] \<notin> set (register_roots roots ps)" using Cons by simp
  have b: "[] \<notin> set (register_roots (roots @ [lit ''.'']) ps)"
    using Cons.IH [of "roots @ [lit ''.'']"] Cons.prems by (simp add: lit_dot_nonempty)
  have c: "dirname p \<noteq> [] \<Longrightarrow> [] \<notin> set (register_roots (roots @ [dirname p]) ps)"
    using Cons.IH [of "roots @ [dirname p]"] Cons.prems by auto
  show ?case using a b c by (simp add: Let_def)
qed

lemma candidate_roots_distinct: "distinct (candidate_roots ps)"
  using register_roots_distinct [of "[]" ps] by (simp add: candidate_roots_def Let_def)

lemma candidate_roots_nonempty: "[] \<notin> set (candidate_roots ps)"
  using register_roots_nonempty [of "[]" ps]
  by (simp add: candidate_roots_def Let_def lit_dot_nonempty)

lemma files_of_initial: "files_of (map (\<lambda>root. (root, [])) roots) r = {}"
  by (induction roots) (simp_all add: files_of_def)

lemma detect_member:
  "(r, fs) \<in> set (detect_project_roots ps) \<longleftrightarrow>
     r \<in> set (candidate_roots ps) \<and> fs \<noteq> []
     \<and> map_of (assign_paths (map (\<lambda>root. (root, [])) (candidate_roots ps)) ps) r = Some fs"
proof -
  let ?A = "assign_paths (map (\<lambda>root. (root, [])) (candidate_roots ps)) ps"
  have keys: "map fst ?A = candidate_roots ps"
    by (simp add: map_fst_assign_paths comp_def)
  then have d: "distinct (map fst ?A)" by (simp add: candidate_roots_distinct)
  have a: "(r, fs) \<in> set ?A \<longleftrightarrow> map_of ?A r = Some fs" using d by simp
  have b: "(r, fs) \<in> set ?A \<Longrightarrow> r \<in> set (candidate_roots ps)"
  proof -
    assume "(r, fs) \<in> set ?A"
    then have "fst (r, fs) \<in> set (map fst ?A)" by (simp only: set_map image_eqI)
    then show ?thesis by (simp only: keys fst_conv)
  qed
  have "(r, fs) \<in> set (detect_project_roots ps) \<longleftrightarrow> (r, fs) \<in> set ?A \<and> fs \<noteq> []"
    by (simp add: detect_project_roots_def)
  then show ?thesis using a b by blast
qed

lemma detect_files:
  assumes "(r, fs) \<in> set (detect_project_roots ps)"
  shows "p \<in> set fs \<longleftrightarrow>
           p \<in> set ps \<and> \<not> should_skip_path p \<and> \<not> endswith p (lit ''/'')
           \<and> assigned_root p (candidate_roots ps) = Some r"
proof -
  let ?A = "assign_paths (map (\<lambda>root. (root, [])) (candidate_roots ps)) ps"
  from assms have r: "r \<in> set (candidate_roots ps)" and m: "map_of ?A r = Some fs"
    by (simp_all add: detect_member)
  from r have rne: "r \<noteq> []" using candidate_roots_nonempty [of ps] by auto
  have "p \<in> set fs \<longleftrightarrow> p \<in> files_of ?A r" using m by (simp add: files_of_def)
  also have "\<dots> \<longleftrightarrow> p \<in> set ps \<and> \<not> should_skip_path p \<and> \<not> endswith p (lit ''/'')
           \<and> assigned_root p (candidate_roots ps) = Some r"
    using rne by (simp add: files_of_assign_paths files_of_initial comp_def)
  finally show ?thesis .
qed

lemma detect_assigned:
  assumes "p \<in> set ps" "\<not> should_skip_path p" "\<not> endswith p (lit ''/'')"
    and "assigned_root p (candidate_roots ps) = Some r"
  shows "\<exists>fs. (r, fs) \<in> set (detect_project_roots ps) \<and> p \<in> set fs"
proof -
  let ?A = "assign_paths (map (\<lambda>root. (root, [])) (candidate_roots ps)) ps"
  from assigned_root_Some [OF assms(4)] have r: "r \<in> set (candidate_roots ps)" by simp
  then have rne: "r \<noteq> []" using candidate_roots_nonempty [of ps] by auto
  have keys: "map fst ?A = candidate_roots ps"
    by (simp add: map_fst_assign_paths comp_def)
  have "r \<in> fst ` set ?A" using r keys by (metis set_map)
  then obtain fs where m: "map_of ?A r = Some fs"
    by (metis domD dom_map_of_conv_image_fst)
  have "p \<in> files_of ?A r"
    using assms rne by (simp add: files_of_assign_paths comp_def)
  with m have pin: "p \<in> set fs" by (simp add: files_of_def)
  then have "fs \<noteq> []" by auto
  with r m pin show ?thesis by (auto simp: detect_member)
qed

text \<open>
  The depth of a root as the number of its path segments; the top level \<open>.\<close> has none.
  The loop of the source compares \<open>root.count("/")\<close> instead, which is one less than the
  number of segments for every root but \<open>.\<close>.
\<close>

definition segment_depth :: "str \<Rightarrow> nat" where
  "segment_depth root = (if root = lit ''.'' then 0 else length (split_chr slash root))"

lemma split_chr_nonempty: "split_chr sep t \<noteq> []"
  by (induction t) (auto split: list.splits)

lemma length_split_chr: "length (split_chr sep t) = count_list t sep + 1"
proof (induction t)
  case Nil
  then show ?case by simp
next
  case (Cons c cs)
  obtain w ws where s: "split_chr sep cs = w # ws"
    using split_chr_nonempty [of sep cs] by (cases "split_chr sep cs") auto
  show ?case using Cons s by auto
qed

lemma segment_depth_count:
  "root \<noteq> lit ''.'' \<Longrightarrow> segment_depth root = count_list root slash + 1"
  by (simp add: segment_depth_def length_split_chr)

lemma segment_depth_dot: "segment_depth (lit ''.'') = 0"
  by (simp add: segment_depth_def)

lemma count_dot: "count_list (lit ''.'') slash = 0"
  by (simp add: lit_def)

lemma lit_slash: "lit ''/'' = [slash]"
  by (simp add: lit_def)

lemma startswith_iff: "startswith t k \<longleftrightarrow> (\<exists>post. t = k @ post)"
proof
  assume "startswith t k"
  then have "t = k @ drop (length k) t"
    unfolding startswith_def by (metis append_take_drop_id)
  then show "\<exists>post. t = k @ post" ..
next
  assume "\<exists>post. t = k @ post"
  then show "startswith t k" by (auto simp: startswith_def)
qed

text \<open>A root other than \<open>.\<close> that matches a path is a prefix of it.\<close>

lemma root_matches_prefix:
  assumes "root_matches r path" and "r \<noteq> lit ''.''"
  shows "path = r \<or> (\<exists>post. path = r @ [slash] @ post)"
proof -
  from assms have "startswith path (r @ [slash]) \<or> path = r"
    by (simp add: root_matches_def lit_slash)
  then show ?thesis
  proof
    assume "startswith path (r @ [slash])"
    then obtain post where "path = (r @ [slash]) @ post"
      unfolding startswith_iff by blast
    then show ?thesis by simp
  next
    assume "path = r"
    then show ?thesis by simp
  qed
qed

text \<open>
  Of two roots other than \<open>.\<close> that match the same path, the shorter is a proper path
  prefix of the longer, which therefore has more separators.
\<close>

lemma matching_roots_shorter:
  assumes "root_matches r1 path" "r1 \<noteq> lit ''.''"
    and "root_matches r2 path" "r2 \<noteq> lit ''.''"
    and "length r1 < length r2"
  shows "count_list r1 slash < count_list r2 slash"
proof -
  from root_matches_prefix [OF assms(3,4)] obtain post2 where p2: "path = r2 @ post2"
    by auto
  from root_matches_prefix [OF assms(1,2)]
  have "path = r1 \<or> (\<exists>post. path = r1 @ [slash] @ post)" .
  moreover have "path \<noteq> r1"
  proof
    assume "path = r1"
    with p2 have "length r1 = length r2 + length post2" by simp
    with assms(5) show False by simp
  qed
  ultimately obtain post1 where p1: "path = r1 @ [slash] @ post1" by blast
  from p1 p2 have e: "r1 @ ([slash] @ post1) = r2 @ post2" by simp
  from assms(5) have "length r1 \<le> length r2" by simp
  with e obtain mid where m: "r2 = r1 @ mid"
    by (metis append_eq_append_conv_if append_take_drop_id)
  with e have "[slash] @ post1 = mid @ post2" by simp
  moreover from m assms(5) have "mid \<noteq> []" by auto
  ultimately obtain rest where "mid = slash # rest"
    by (cases mid) auto
  with m have "r2 = r1 @ slash # rest" by simp
  then show ?thesis by simp
qed

lemma matching_roots_same_length:
  assumes "root_matches r1 path" "r1 \<noteq> lit ''.''"
    and "root_matches r2 path" "r2 \<noteq> lit ''.''"
    and "length r1 = length r2"
  shows "r1 = r2"
proof -
  from root_matches_prefix [OF assms(1,2)] obtain post1 where "path = r1 @ post1" by auto
  moreover from root_matches_prefix [OF assms(3,4)] obtain post2 where "path = r2 @ post2"
    by auto
  ultimately have "r1 @ post1 = r2 @ post2" by simp
  with assms(5) show ?thesis by simp
qed

lemma matching_roots_count:
  assumes "root_matches r1 path" "r1 \<noteq> lit ''.''"
    and "root_matches r2 path" "r2 \<noteq> lit ''.''"
    and "r1 \<noteq> r2"
  shows "count_list r1 slash \<noteq> count_list r2 slash"
proof -
  consider "length r1 < length r2" | "length r2 < length r1" | "length r1 = length r2"
    by linarith
  then show ?thesis
  proof cases
    case 1
    from matching_roots_shorter [OF assms(1,2,3,4) 1] show ?thesis by simp
  next
    case 2
    from matching_roots_shorter [OF assms(3,4,1,2) 2] show ?thesis by simp
  next
    case 3
    from matching_roots_same_length [OF assms(1,2,3,4) 3] assms(5) show ?thesis by simp
  qed
qed

text \<open>
  The root chosen by the loop is strictly deeper, in segments, than every other registered
  root matching the path, whenever it is not \<open>.\<close> or no registered root of one segment
  matches the path.
\<close>

lemma assigned_root_deepest:
  assumes a: "assigned_root path roots = Some r"
    and h: "r \<noteq> lit ''.'' \<or> (\<forall>r0 \<in> set roots. root_matches r0 path \<longrightarrow> segment_depth r0 \<noteq> 1)"
    and r': "r' \<in> set roots" "root_matches r' path" "r' \<noteq> r"
  shows "segment_depth r' < segment_depth r"
proof -
  from assigned_root_Some [OF a]
  have rin: "r \<in> set roots" and rm: "root_matches r path"
    and le: "count_list r' slash \<le> count_list r slash"
    using r' by blast+
  show ?thesis
  proof (cases "r = lit ''.''")
    case True
    with r'(3) have nd: "r' \<noteq> lit ''.''" by simp
    from le True have "count_list r' slash = 0" by (simp add: count_dot)
    with nd have "segment_depth r' = 1" by (simp add: segment_depth_count)
    with h True r'(1,2) show ?thesis by blast
  next
    case False
    show ?thesis
    proof (cases "r' = lit ''.''")
      case True
      with False show ?thesis by (simp add: segment_depth_dot segment_depth_count)
    next
      case nd: False
      from matching_roots_count [OF r'(2) nd rm False r'(3)] le
      have "count_list r' slash < count_list r slash" by simp
      with nd False show ?thesis by (simp add: segment_depth_count)
    qed
  qed
qed

text \<open>
  C1, as the code has it by design. A path of the archive that is neither skipped nor a
  directory entry lies in the set of at most one returned root, and in one exactly when
  some registered root matches it (is \<open>.\<close>, or is a path prefix of it, or equals it). The
  root that holds it is a registered root matching it and is the deepest such root, depth
  being the number of path segments: every other registered root matching the path has
  fewer segments. The last part is stated for a path held by a root other than \<open>.\<close>, and
  for a path matched by no registered root of one segment; which root holds a path that
  both \<open>.\<close> and a registered root of one segment match is left open here. When no marker
  file registered a root, the path is held by the root \<open>.\<close>. The returned sets hold only
  paths of the archive that are neither skipped nor directory entries.
\<close>

theorem detect_project_roots_assignment:
  assumes "path \<in> set all_paths"
    and "\<not> should_skip_path path"
    and "\<not> endswith path (lit ''/'')"
  shows "(\<forall>r fs r' fs'.
            (r, fs) \<in> set (detect_project_roots all_paths) \<and> path \<in> set fs
            \<and> (r', fs') \<in> set (detect_project_roots all_paths) \<and> path \<in> set fs'
            \<longrightarrow> r = r' \<and> fs = fs')
       \<and> ((\<exists>r fs. (r, fs) \<in> set (detect_project_roots all_paths) \<and> path \<in> set fs)
            \<longleftrightarrow> (\<exists>r \<in> set (candidate_roots all_paths). root_matches r path))
       \<and> (\<forall>r fs.
            (r, fs) \<in> set (detect_project_roots all_paths) \<and> path \<in> set fs
            \<longrightarrow> r \<in> set (candidate_roots all_paths) \<and> root_matches r path
                \<and> (r \<noteq> lit ''.''
                     \<or> (\<forall>r0 \<in> set (candidate_roots all_paths).
                           root_matches r0 path \<longrightarrow> segment_depth r0 \<noteq> 1)
                   \<longrightarrow> (\<forall>r' \<in> set (candidate_roots all_paths).
                          root_matches r' path \<and> r' \<noteq> r
                          \<longrightarrow> segment_depth r' < segment_depth r)))
       \<and> (register_roots [] all_paths = []
            \<longrightarrow> (\<exists>fs. (lit ''.'', fs) \<in> set (detect_project_roots all_paths) \<and> path \<in> set fs))
       \<and> (\<forall>r fs p. (r, fs) \<in> set (detect_project_roots all_paths) \<and> p \<in> set fs
            \<longrightarrow> p \<in> set all_paths \<and> \<not> should_skip_path p \<and> \<not> endswith p (lit ''/''))"
proof (intro conjI)
  let ?D = "detect_project_roots all_paths"
  let ?R = "candidate_roots all_paths"
  have asg: "assigned_root path ?R = Some r" if "(r, fs) \<in> set ?D" "path \<in> set fs" for r fs
    using detect_files [OF that(1), of path] that(2) by simp
  show "\<forall>r fs r' fs'. (r, fs) \<in> set ?D \<and> path \<in> set fs \<and> (r', fs') \<in> set ?D \<and> path \<in> set fs'
          \<longrightarrow> r = r' \<and> fs = fs'"
  proof (intro allI impI)
    fix r fs r' fs'
    assume h: "(r, fs) \<in> set ?D \<and> path \<in> set fs \<and> (r', fs') \<in> set ?D \<and> path \<in> set fs'"
    then have "assigned_root path ?R = Some r" "assigned_root path ?R = Some r'"
      using asg by blast+
    then have eq: "r = r'" by simp
    from h have "map_of (assign_paths (map (\<lambda>root. (root, [])) ?R) all_paths) r = Some fs"
      "map_of (assign_paths (map (\<lambda>root. (root, [])) ?R) all_paths) r' = Some fs'"
      by (simp_all add: detect_member)
    with eq show "r = r' \<and> fs = fs'" by simp
  qed
  show "(\<exists>r fs. (r, fs) \<in> set ?D \<and> path \<in> set fs) \<longleftrightarrow> (\<exists>r \<in> set ?R. root_matches r path)"
  proof
    assume "\<exists>r fs. (r, fs) \<in> set ?D \<and> path \<in> set fs"
    then obtain r fs where "(r, fs) \<in> set ?D" "path \<in> set fs" by blast
    then have "assigned_root path ?R = Some r" by (rule asg)
    from assigned_root_Some [OF this] show "\<exists>r \<in> set ?R. root_matches r path" by blast
  next
    assume "\<exists>r \<in> set ?R. root_matches r path"
    then obtain r where r: "r \<in> set ?R" "root_matches r path" by blast
    have "assigned_root path ?R \<noteq> None"
      using assigned_root_None [of path ?R r] r by blast
    then obtain r' where "assigned_root path ?R = Some r'" by blast
    from detect_assigned [OF assms this]
    show "\<exists>r fs. (r, fs) \<in> set ?D \<and> path \<in> set fs" by blast
  qed
  show "\<forall>r fs. (r, fs) \<in> set ?D \<and> path \<in> set fs
          \<longrightarrow> r \<in> set ?R \<and> root_matches r path
              \<and> (r \<noteq> lit ''.''
                   \<or> (\<forall>r0 \<in> set ?R. root_matches r0 path \<longrightarrow> segment_depth r0 \<noteq> 1)
                 \<longrightarrow> (\<forall>r' \<in> set ?R. root_matches r' path \<and> r' \<noteq> r
                        \<longrightarrow> segment_depth r' < segment_depth r))"
  proof (intro allI impI conjI ballI)
    fix r fs
    assume "(r, fs) \<in> set ?D \<and> path \<in> set fs"
    then have a: "assigned_root path ?R = Some r" using asg by blast
    from assigned_root_Some [OF a] show "r \<in> set ?R" and "root_matches r path" by blast+
    fix r'
    assume h: "r \<noteq> lit ''.''
                 \<or> (\<forall>r0 \<in> set ?R. root_matches r0 path \<longrightarrow> segment_depth r0 \<noteq> 1)"
      and r': "r' \<in> set ?R" "root_matches r' path \<and> r' \<noteq> r"
    from r'(2) have m: "root_matches r' path" and n: "r' \<noteq> r" by blast+
    show "segment_depth r' < segment_depth r"
      by (rule assigned_root_deepest [OF a h r'(1) m n])
  qed
  show "register_roots [] all_paths = []
          \<longrightarrow> (\<exists>fs. (lit ''.'', fs) \<in> set ?D \<and> path \<in> set fs)"
  proof
    assume e: "register_roots [] all_paths = []"
    then have R: "?R = [lit ''.'']" by (simp add: candidate_roots_def)
    have "root_matches (lit ''.'') path" by (simp add: root_matches_def)
    then have "assigned_root path ?R \<noteq> None"
      using assigned_root_None [of path ?R "lit ''.''"] R by auto
    then obtain r' where a: "assigned_root path ?R = Some r'" by blast
    from assigned_root_Some [OF a] R have "r' = lit ''.''" by simp
    with detect_assigned [OF assms a]
    show "\<exists>fs. (lit ''.'', fs) \<in> set ?D \<and> path \<in> set fs" by simp
  qed
  show "\<forall>r fs p. (r, fs) \<in> set ?D \<and> p \<in> set fs
          \<longrightarrow> p \<in> set all_paths \<and> \<not> should_skip_path p \<and> \<not> endswith p (lit ''/'')"
  proof (intro allI impI)
    fix r fs p
    assume "(r, fs) \<in> set ?D \<and> p \<in> set fs"
    then have "(r, fs) \<in> set ?D" and "p \<in> set fs" by blast+
    with detect_files [of r fs all_paths p]
    show "p \<in> set all_paths \<and> \<not> should_skip_path p \<and> \<not> endswith p (lit ''/'')" by blast
  qed
qed

text \<open>
  With the nested roots \<open>svc\<close> and \<open>svc/api\<close>, the file \<open>svc/api/src/index.js\<close>
  is held by \<open>svc/api\<close>.
\<close>

theorem detect_project_roots_assignment_witness:
  "lit ''svc/api/src/index.js''
     \<in> set [lit ''svc/pom.xml'', lit ''svc/api/package.json'', lit ''svc/api/src/index.js'']
   \<and> \<not> should_skip_path (lit ''svc/api/src/index.js'')
   \<and> \<not> endswith (lit ''svc/api/src/index.js'') (lit ''/'')
   \<and> (\<exists>fs. (lit ''svc/api'', fs) \<in> set (detect_project_roots
                 [lit ''svc/pom.xml'', lit ''svc/api/package.json'', lit ''svc/api/src/index.js''])
              \<and> lit ''svc/api/src/index.js'' \<in> set fs)"
proof -
  let ?p = "lit ''svc/api/src/index.js''"
  let ?ps = "[lit ''svc/pom.xml'', lit ''svc/api/package.json'', ?p]"
  have h1: "?p \<in> set ?ps" by simp
  have h2: "\<not> should_skip_path ?p" by code_simp
  have h3: "\<not> endswith ?p (lit ''/'')" by code_simp
  have R: "candidate_roots ?ps = [lit ''svc'', lit ''svc/api'']" by code_simp
  have m: "root_matches (lit ''svc/api'') ?p" by code_simp
  have d: "segment_depth (lit ''svc'') = 1" "segment_depth (lit ''svc/api'') = 2"
    "lit ''svc'' \<noteq> lit ''.''" "lit ''svc/api'' \<noteq> lit ''.''" "lit ''svc'' \<noteq> lit ''svc/api''"
    by code_simp+
  note t = detect_project_roots_assignment [OF h1 h2 h3]
  from t m R obtain r fs where rf: "(r, fs) \<in> set (detect_project_roots ?ps)" "?p \<in> set fs"
    by auto
  with t have rin: "r \<in> set (candidate_roots ?ps)"
    and deep: "r \<noteq> lit ''.''
                 \<or> (\<forall>r0 \<in> set (candidate_roots ?ps). root_matches r0 ?p \<longrightarrow> segment_depth r0 \<noteq> 1)
               \<longrightarrow> (\<forall>r' \<in> set (candidate_roots ?ps). root_matches r' ?p \<and> r' \<noteq> r
                      \<longrightarrow> segment_depth r' < segment_depth r)"
    by blast+
  have "r = lit ''svc/api''"
  proof (rule ccontr)
    assume n: "r \<noteq> lit ''svc/api''"
    with rin R have r: "r = lit ''svc''" by simp
    with d(3) have "r \<noteq> lit ''.''" by simp
    with deep have "\<forall>r' \<in> set (candidate_roots ?ps). root_matches r' ?p \<and> r' \<noteq> r
                      \<longrightarrow> segment_depth r' < segment_depth r" by blast
    with m n R have "segment_depth (lit ''svc/api'') < segment_depth r" by simp
    with r d show False by simp
  qed
  with rf h1 h2 h3 show ?thesis by blast
qed

text \<open>
  C1 as stated fails: with a marker in \<open>app\<close> only, the root \<open>.\<close> is not
  registered and the top-level file \<open>README.md\<close>, which is not skipped, is assigned to
  no root.
\<close>

theorem detect_project_roots_unassigned_counterexample:
  "\<not> should_skip_path (lit ''README.md'') \<and> \<not> endswith (lit ''README.md'') (lit ''/'')
   \<and> detect_project_roots [lit ''app/package.json'', lit ''README.md'']
       = [(lit ''app'', [lit ''app/package.json''])]"
  by code_simp

text \<open>
  The separators of \<open>.\<close> and of a root of one segment are equally many, and the loop
  keeps the root it met first: with \<open>main.tf\<close> listed before \<open>app/package.json\<close> the
  files under \<open>app\<close> go to \<open>.\<close> although \<open>app\<close> is registered, and \<open>app\<close> is
  returned when the order is reversed.
\<close>

lemma detect_project_roots_tie:
  "detect_project_roots [lit ''main.tf'', lit ''app/package.json'', lit ''app/src/index.js'']
     = [(lit ''.'', [lit ''main.tf'', lit ''app/package.json'', lit ''app/src/index.js''])]
   \<and> detect_project_roots [lit ''app/package.json'', lit ''app/src/index.js'', lit ''main.tf'']
     = [(lit ''app'', [lit ''app/package.json'', lit ''app/src/index.js'']),
        (lit ''.'', [lit ''main.tf''])]"
  by code_simp

text \<open>
  C10. The second half of the claim fails on the code. With \<open>main.tf\<close> listed before
  \<open>app/package.json\<close>, the roots \<open>.\<close> and \<open>app\<close> are both registered, the marker
  \<open>app/package.json\<close> is given to \<open>.\<close>, and \<open>app\<close>, left empty, is not returned:
  the root seeded by that marker does not hold it. With \<open>/pom.xml\<close> the root \<open>/\<close> is
  registered, the test \<open>path.startswith(root + "/")\<close> asks for the prefix \<open>//\<close>, the
  marker is assigned nowhere, and the returned root \<open>/\<close> holds \<open>//notes.txt\<close> only,
  which is no signal path.
\<close>

theorem marker_root_loses_marker:
  "basename (lit ''app/package.json'') \<in> set PROJECT_ROOT_MARKERS
   \<and> candidate_roots [lit ''main.tf'', lit ''app/package.json''] = [lit ''.'', lit ''app'']
   \<and> detect_project_roots [lit ''main.tf'', lit ''app/package.json'']
       = [(lit ''.'', [lit ''main.tf'', lit ''app/package.json''])]
   \<and> basename (lit ''/pom.xml'') \<in> set PROJECT_ROOT_MARKERS
   \<and> candidate_roots [lit ''/pom.xml'', lit ''//notes.txt''] = [lit ''/'']
   \<and> detect_project_roots [lit ''/pom.xml'', lit ''//notes.txt'']
       = [(lit ''/'', [lit ''//notes.txt''])]
   \<and> \<not> is_signal_path ascii_lower (lit ''//notes.txt'')"
  by code_simp

section \<open>Values and exceptions\<close>

text \<open>
  The values that \<open>json.loads\<close> produces and \<open>json.dumps\<close> accepts: \<open>None\<close>, booleans,
  integers, floats, strings, lists and dictionaries with string keys. A dictionary is the
  list of its items in insertion order, with pairwise different keys. No arithmetic is done
  on floats; a float is kept as its \<open>repr\<close>, from which its truth value can be read.
\<close>

datatype json =
    JNull
  | JBool bool
  | JInt int
  | JFloat str
  | JStr str
  | JList "json list"
  | JDict "(str \<times> json) list"

text \<open>
  The exceptions that the handler raises or meets. \<open>ValueError\<close> carries its message and
  \<open>ClientError\<close> the response dictionary of the failed AWS call; \<open>OtherException\<close> stands
  for any other exception raised by a collaborator (the AWS client, the archive reader, the
  JSON parser), named by its class.
\<close>

datatype error =
    UnicodeEncodeError
  | TypeError
  | AttributeError
  | KeyError
  | IndexError
  | ValueError str
  | ClientError json
  | OtherException str

section \<open>Content sanitizer\<close>

text \<open>
  \<open>str.splitlines\<close>: a line ends at each of the line boundaries of Python (line feed,
  vertical tab, form feed, carriage return, the separators U+001C to U+001E, U+0085,
  U+2028, U+2029), with carriage return followed by line feed taken as one boundary. The
  boundaries are dropped and an empty last line is not produced.
\<close>

definition is_linebreak :: "codepoint \<Rightarrow> bool" where
  "is_linebreak c = (c \<in> {10, 11, 12, 13, 28, 29, 30, 133, 8232, 8233})"

fun splitlines :: "str \<Rightarrow> str list" where
  "splitlines [] = []"
| "splitlines [c] = (if is_linebreak c then [[]] else [[c]])"
| "splitlines (c # d # cs) =
     (if c = 13 \<and> d = 10 then [] # splitlines cs
      else if is_linebreak c then [] # splitlines (d # cs)
      else (case splitlines (d # cs) of
              [] \<Rightarrow> [[c]]
            | l # ls \<Rightarrow> (c # l) # ls))"

text \<open>\<open>any(k in l for k in SENSITIVE_KEYS)\<close> with \<open>l = line.lower()\<close>.\<close>

definition is_sensitive :: "(str \<Rightarrow> str) \<Rightarrow> str \<Rightarrow> bool" where
  "is_sensitive lower line = list_ex (\<lambda>k. contains (lower line) k) SENSITIVE_KEYS"

text \<open>\<open>line.partition(sep)[0]\<close>: the part before the first occurrence of \<open>sep\<close>.\<close>

definition partition_head :: "codepoint \<Rightarrow> str \<Rightarrow> str" where
  "partition_head sep line = takeWhile (\<lambda>c. c \<noteq> sep) line"

text \<open>The body of the loop of \<open>redact_secrets\<close>: what is appended for one line.\<close>

definition redact_line :: "(str \<Rightarrow> str) \<Rightarrow> str \<Rightarrow> str" where
  "redact_line lower line =
     (if is_sensitive lower line then
        (if 61 \<in> set line then partition_head 61 line @ lit ''=***REDACTED***''
         else if 58 \<in> set line then partition_head 58 line @ lit '': ***REDACTED***''
         else lit ''***REDACTED LINE***'')
      else line)"

definition redact_secrets :: "(str \<Rightarrow> str) \<Rightarrow> str \<Rightarrow> str" where
  "redact_secrets lower text = join [10] (map (redact_line lower) (splitlines text))"

lemma partition_head_append:
  "sep \<notin> set key \<Longrightarrow> partition_head sep (key @ [sep] @ val) = key"
  unfolding partition_head_def by (induction key) auto

subsection \<open>Properties of the redaction\<close>

lemma contains_iff: "contains t k \<longleftrightarrow> (\<exists>pre post. t = pre @ k @ post)"
proof (induction t)
  case Nil
  then show ?case by auto
next
  case (Cons c cs)
  show ?case
  proof
    assume "contains (c # cs) k"
    then consider "startswith (c # cs) k" | "contains cs k" by auto
    then show "\<exists>pre post. c # cs = pre @ k @ post"
    proof cases
      case 1
      then obtain post where "c # cs = k @ post" by (auto simp: startswith_iff)
      then have "c # cs = [] @ k @ post" by simp
      then show ?thesis by blast
    next
      case 2
      with Cons.IH obtain pre post where "cs = pre @ k @ post" by blast
      then have "c # cs = (c # pre) @ k @ post" by simp
      then show ?thesis by blast
    qed
  next
    assume "\<exists>pre post. c # cs = pre @ k @ post"
    then obtain pre post where e: "c # cs = pre @ k @ post" by blast
    show "contains (c # cs) k"
    proof (cases pre)
      case Nil
      with e have "startswith (c # cs) k" by (auto simp: startswith_iff)
      then show ?thesis by simp
    next
      case (Cons a pre')
      with e have "cs = pre' @ k @ post" by simp
      with Cons.IH have "contains cs k" by blast
      then show ?thesis by simp
    qed
  qed
qed

text \<open>A line is sensitive when its lower-cased form has one of the keys as a substring.\<close>

lemma is_sensitive_iff:
  "is_sensitive lower line \<longleftrightarrow>
     (\<exists>k \<in> set SENSITIVE_KEYS. \<exists>pre post. lower line = pre @ k @ post)"
  by (simp add: is_sensitive_def list_ex_iff contains_iff)

lemma aws_sensitive: "is_sensitive ascii_lower (lit ''AWS_SECRET_KEY=abcd1234'')"
  by (simp add: is_sensitive_def SENSITIVE_KEYS_def ascii_lower_def lit_def startswith_def)

lemma aws_lines: "splitlines (lit ''AWS_SECRET_KEY=abcd1234'') = [lit ''AWS_SECRET_KEY=abcd1234'']"
  by (simp add: lit_def is_linebreak_def)

lemma aws_example:
  "redact_secrets ascii_lower (lit ''AWS_SECRET_KEY=abcd1234'') = lit ''AWS_SECRET_KEY=***REDACTED***''"
  by (simp add: redact_secrets_def redact_line_def aws_lines aws_sensitive partition_head_def)
     (simp add: lit_def)

lemma redact_line_plain: "\<not> is_sensitive lower line \<Longrightarrow> redact_line lower line = line"
  by (simp add: redact_line_def)

lemma redact_line_eq:
  assumes "is_sensitive lower line" and "line = key @ [61] @ val" and "61 \<notin> set key"
  shows "redact_line lower line = key @ lit ''=***REDACTED***''"
proof -
  have "61 \<in> set line" using assms(2) by simp
  moreover have "partition_head 61 line = key"
    using assms(2,3) partition_head_append [of 61 key val] by simp
  ultimately show ?thesis using assms(1) by (simp add: redact_line_def)
qed

lemma redact_line_colon:
  assumes "is_sensitive lower line" and "line = key @ [58] @ val" and "58 \<notin> set key"
    and "61 \<notin> set line"
  shows "redact_line lower line = key @ lit '': ***REDACTED***''"
proof -
  have "58 \<in> set line" using assms(2) by simp
  moreover have "partition_head 58 line = key"
    using assms(2,3) partition_head_append [of 58 key val] by simp
  ultimately show ?thesis using assms(1,4) by (simp add: redact_line_def)
qed

lemma redact_line_whole:
  "is_sensitive lower line \<Longrightarrow> 61 \<notin> set line \<Longrightarrow> 58 \<notin> set line
     \<Longrightarrow> redact_line lower line = lit ''***REDACTED LINE***''"
  by (simp add: redact_line_def)

text \<open>
  What \<open>redact_secrets\<close> does. The output is the lines of the input, in order and joined
  by line feeds. A line without a sensitive key (case-insensitively, as a substring) is
  unchanged. A line with one and with an \<open>=\<close> becomes the part before the first
  \<open>=\<close> followed by \<open>=***REDACTED***\<close>, whatever that part contains; otherwise
  with a \<open>:\<close> it becomes the part before the first \<open>:\<close> followed by
  \<open>: ***REDACTED***\<close>; otherwise the whole line is replaced by a marker. The line
  \<open>AWS_SECRET_KEY=abcd1234\<close> becomes \<open>AWS_SECRET_KEY=***REDACTED***\<close>.
\<close>

theorem redact_secrets_redacts:
  "(\<exists>out. redact_secrets lower text = join [10] out
        \<and> length out = length (splitlines text)
        \<and> (\<forall>i < length (splitlines text).
             (\<not> is_sensitive lower (splitlines text ! i) \<longrightarrow> out ! i = splitlines text ! i)
           \<and> (is_sensitive lower (splitlines text ! i) \<longrightarrow>
                 (\<forall>key val. splitlines text ! i = key @ [61] @ val \<and> 61 \<notin> set key
                      \<longrightarrow> out ! i = key @ lit ''=***REDACTED***'')
               \<and> (\<forall>key val. splitlines text ! i = key @ [58] @ val \<and> 58 \<notin> set key
                        \<and> 61 \<notin> set (splitlines text ! i)
                      \<longrightarrow> out ! i = key @ lit '': ***REDACTED***'')
               \<and> (61 \<notin> set (splitlines text ! i) \<and> 58 \<notin> set (splitlines text ! i)
                      \<longrightarrow> out ! i = lit ''***REDACTED LINE***''))))
   \<and> redact_secrets ascii_lower (lit ''AWS_SECRET_KEY=abcd1234'')
       = lit ''AWS_SECRET_KEY=***REDACTED***''"
proof (intro conjI exI [of _ "map (redact_line lower) (splitlines text)"] allI impI)
  show "redact_secrets lower text = join [10] (map (redact_line lower) (splitlines text))"
    by (simp add: redact_secrets_def)
  show "length (map (redact_line lower) (splitlines text)) = length (splitlines text)"
    by simp
  show "redact_secrets ascii_lower (lit ''AWS_SECRET_KEY=abcd1234'')
          = lit ''AWS_SECRET_KEY=***REDACTED***''"
    by (rule aws_example)
next
  fix i assume "i < length (splitlines text)" "\<not> is_sensitive lower (splitlines text ! i)"
  then show "map (redact_line lower) (splitlines text) ! i = splitlines text ! i"
    by (simp add: redact_line_plain)
next
  fix i key val
  assume h: "i < length (splitlines text)" "is_sensitive lower (splitlines text ! i)"
    "splitlines text ! i = key @ [61] @ val \<and> 61 \<notin> set key"
  from h(3) have b: "splitlines text ! i = key @ [61] @ val" and c: "61 \<notin> set key"
    by blast+
  have "redact_line lower (splitlines text ! i) = key @ lit ''=***REDACTED***''"
    by (rule redact_line_eq [OF h(2) b c])
  with h(1) show "map (redact_line lower) (splitlines text) ! i = key @ lit ''=***REDACTED***''"
    by (simp only: nth_map)
next
  fix i key val
  assume h: "i < length (splitlines text)" "is_sensitive lower (splitlines text ! i)"
    "splitlines text ! i = key @ [58] @ val \<and> 58 \<notin> set key \<and> 61 \<notin> set (splitlines text ! i)"
  from h(3) have b: "splitlines text ! i = key @ [58] @ val" and c: "58 \<notin> set key"
    and d: "61 \<notin> set (splitlines text ! i)" by blast+
  have "redact_line lower (splitlines text ! i) = key @ lit '': ***REDACTED***''"
    by (rule redact_line_colon [OF h(2) b c d])
  with h(1) show "map (redact_line lower) (splitlines text) ! i = key @ lit '': ***REDACTED***''"
    by (simp only: nth_map)
next
  fix i
  assume "i < length (splitlines text)" "is_sensitive lower (splitlines text ! i)"
    "61 \<notin> set (splitlines text ! i) \<and> 58 \<notin> set (splitlines text ! i)"
  then show "map (redact_line lower) (splitlines text) ! i = lit ''***REDACTED LINE***''"
    by (simp add: redact_line_whole)
qed

theorem redact_secrets_redacts_witness:
  "redact_secrets ascii_lower (lit ''db_password: hunter2'') = lit ''db_password: ***REDACTED***''"
proof -
  let ?t = "lit ''db_password: hunter2''"
  have ls: "splitlines ?t = [?t]" by (simp add: lit_def is_linebreak_def)
  have s: "is_sensitive ascii_lower ?t"
    by (simp add: is_sensitive_def SENSITIVE_KEYS_def ascii_lower_def lit_def startswith_def)
  have d: "?t = lit ''db_password'' @ [58] @ lit '' hunter2''" by (simp add: lit_def)
  have k: "58 \<notin> set (lit ''db_password'')" by (simp add: lit_def)
  have e: "61 \<notin> set ?t" by (simp add: lit_def)
  from redact_secrets_redacts [of ascii_lower ?t]
  obtain out where o: "redact_secrets ascii_lower ?t = join [10] out"
    and l: "length out = length (splitlines ?t)"
    and a: "\<forall>i < length (splitlines ?t).
             (is_sensitive ascii_lower (splitlines ?t ! i) \<longrightarrow>
               (\<forall>key val. splitlines ?t ! i = key @ [58] @ val \<and> 58 \<notin> set key
                        \<and> 61 \<notin> set (splitlines ?t ! i)
                      \<longrightarrow> out ! i = key @ lit '': ***REDACTED***''))"
    by blast
  from a have "out ! 0 = lit ''db_password'' @ lit '': ***REDACTED***''"
    using ls s d k e by (metis length_Cons nth_Cons_0 zero_less_Suc)
  moreover from l ls have "out = [out ! 0]"
    by (cases out) auto
  ultimately have "join [10] out = lit ''db_password'' @ lit '': ***REDACTED***''"
    by (metis join.simps(2))
  with o show ?thesis by (simp add: lit_def)
qed

text \<open>
  C4. The claim fails on the code. The loop looks for \<open>=\<close> before \<open>:\<close> and keeps
  everything in front of the first \<open>=\<close>, so a sensitive line whose key ends at a colon
  and whose value or trailing comment contains \<open>=\<close> keeps its value: the base64 value of
  \<open>token: dGVzdA==\<close> and the password of \<open>password: hunter2  # was x=1\<close> are both
  still in the output.
\<close>

theorem redact_secrets_keeps_value:
  "is_sensitive ascii_lower (lit ''token: dGVzdA=='')
   \<and> redact_secrets ascii_lower (lit ''token: dGVzdA=='') = lit ''token: dGVzdA=***REDACTED***''
   \<and> is_sensitive ascii_lower (lit ''password: hunter2  # was x=1'')
   \<and> redact_secrets ascii_lower (lit ''password: hunter2  # was x=1'')
       = lit ''password: hunter2  # was x=***REDACTED***''"
  by (simp add: redact_secrets_def redact_line_def is_sensitive_def SENSITIVE_KEYS_def
        ascii_lower_def partition_head_def startswith_def is_linebreak_def lit_def)

subsection \<open>UTF-8\<close>

text \<open>
  Bytes are natural numbers below 256. A code point can be encoded when it is a Unicode
  scalar value; \<open>str.encode("utf-8")\<close> raises \<open>UnicodeEncodeError\<close> on a surrogate.
\<close>

definition valid_cp :: "codepoint \<Rightarrow> bool" where
  "valid_cp c = (c < 55296 \<or> (57344 \<le> c \<and> c < 1114112))"

definition utf8_char :: "codepoint \<Rightarrow> nat list" where
  "utf8_char c =
     (if c < 128 then [c]
      else if c < 2048 then [192 + c div 64, 128 + c mod 64]
      else if c < 65536 then [224 + c div 4096, 128 + (c div 64) mod 64, 128 + c mod 64]
      else [240 + c div 262144, 128 + (c div 4096) mod 64, 128 + (c div 64) mod 64,
            128 + c mod 64])"

definition utf8_bytes :: "str \<Rightarrow> nat list" where
  "utf8_bytes t = concat (map utf8_char t)"

definition utf8_encode :: "str \<Rightarrow> error + nat list" where
  "utf8_encode t = (if list_all valid_cp t then Inr (utf8_bytes t) else Inl UnicodeEncodeError)"

text \<open>
  \<open>bytes.decode("utf-8", errors=...)\<close>, following CPython's decoder: \<open>on_error\<close> is what
  the error handler puts in the output for one error (nothing for \<open>ignore\<close>, U+FFFD for
  \<open>replace\<close>). An error covers one byte for an invalid start byte, the bytes read so far
  for an invalid continuation byte, and everything left for a sequence cut off by the end
  of the input.
\<close>

definition is_cont :: "nat \<Rightarrow> bool" where
  "is_cont b = (128 \<le> b \<and> b < 192)"

text \<open>
  One step of the decoder at the byte \<open>b0\<close> followed by \<open>bs\<close>: the code point decoded,
  or \<open>None\<close> for an error, and how many bytes of \<open>bs\<close> the step consumes.
\<close>

definition utf8_step :: "nat \<Rightarrow> nat list \<Rightarrow> codepoint option \<times> nat" where
  "utf8_step b0 bs =
     (if b0 < 128 then (Some b0, 0)
      else if b0 < 194 then (None, 0)
      else if b0 < 224 then
        (case bs of
           [] \<Rightarrow> (None, 0)
         | b1 # bs1 \<Rightarrow>
             if \<not> is_cont b1 then (None, 0)
             else (Some ((b0 - 192) * 64 + (b1 - 128)), 1))
      else if b0 < 240 then
        (case bs of
           [] \<Rightarrow> (None, 0)
         | b1 # bs1 \<Rightarrow>
             if \<not> is_cont b1 \<or> (b0 = 224 \<and> b1 < 160) \<or> (b0 = 237 \<and> b1 \<ge> 160)
             then (None, 0)
             else (case bs1 of
                     [] \<Rightarrow> (None, 1)
                   | b2 # bs2 \<Rightarrow>
                       if \<not> is_cont b2 then (None, 1)
                       else (Some ((b0 - 224) * 4096 + (b1 - 128) * 64 + (b2 - 128)), 2)))
      else if b0 < 245 then
        (case bs of
           [] \<Rightarrow> (None, 0)
         | b1 # bs1 \<Rightarrow>
             if \<not> is_cont b1 \<or> (b0 = 240 \<and> b1 < 144) \<or> (b0 = 244 \<and> b1 \<ge> 144)
             then (None, 0)
             else (case bs1 of
                     [] \<Rightarrow> (None, 1)
                   | b2 # bs2 \<Rightarrow>
                       if \<not> is_cont b2 then (None, 1)
                       else (case bs2 of
                               [] \<Rightarrow> (None, 2)
                             | b3 # bs3 \<Rightarrow>
                                 if \<not> is_cont b3 then (None, 2)
                                 else (Some ((b0 - 240) * 262144 + (b1 - 128) * 4096
                                              + (b2 - 128) * 64 + (b3 - 128)), 3))))
      else (None, 0))"

fun utf8_decode :: "str \<Rightarrow> nat list \<Rightarrow> str" where
  "utf8_decode on_error [] = []"
| "utf8_decode on_error (b0 # bs) =
     (case utf8_step b0 bs of
        (Some c, k) \<Rightarrow> c # utf8_decode on_error (drop k bs)
      | (None, k) \<Rightarrow> on_error @ utf8_decode on_error (drop k bs))"

definition decode_ignore :: "nat list \<Rightarrow> str" where
  "decode_ignore bs = utf8_decode [] bs"

definition decode_replace :: "nat list \<Rightarrow> str" where
  "decode_replace bs = utf8_decode [65533] bs"

subsection \<open>Decoding an encoded text\<close>

lemma step1: "c < 128 \<Longrightarrow> utf8_step c rest = (Some c, 0)"
  by (simp add: utf8_step_def)

lemma step2_core:
  assumes "2 \<le> a" "a < 32" "d < 64"
  shows "utf8_step (192 + a) ((128 + d) # rest) = (Some (a * 64 + d), 1)"
  using assms by (simp add: utf8_step_def is_cont_def)

lemma step3_core:
  assumes "a < 16" "b < 64" "d < 64" "a = 0 \<Longrightarrow> 32 \<le> b" "a = 13 \<Longrightarrow> b < 32"
  shows "utf8_step (224 + a) ((128 + b) # (128 + d) # rest) = (Some (a * 4096 + b * 64 + d), 2)"
proof -
  have n1: "\<not> (224 + a = 224 \<and> 128 + b < 160)" using assms(4) by auto
  have n2: "\<not> (224 + a = 237 \<and> 128 + b \<ge> 160)" using assms(5) by auto
  have c1: "is_cont (128 + b)" "is_cont (128 + d)" using assms by (simp_all add: is_cont_def)
  have r: "\<not> 224 + a < 128" "\<not> 224 + a < 194" "\<not> 224 + a < 224" "224 + a < 240"
    using assms(1) by simp_all
  show ?thesis
    unfolding utf8_step_def using n1 n2 c1 r by (simp del: add_less_cancel_left)
qed


lemma step4_core:
  assumes "a < 5" "b < 64" "d < 64" "f < 64" "a = 0 \<Longrightarrow> 16 \<le> b" "a = 4 \<Longrightarrow> b < 16"
  shows "utf8_step (240 + a) ((128 + b) # (128 + d) # (128 + f) # rest)
           = (Some (a * 262144 + b * 4096 + d * 64 + f), 3)"
proof -
  have n1: "\<not> (240 + a = 240 \<and> 128 + b < 144)" using assms(5) by auto
  have n2: "\<not> (240 + a = 244 \<and> 128 + b \<ge> 144)" using assms(6) by auto
  have c1: "is_cont (128 + b)" "is_cont (128 + d)" "is_cont (128 + f)"
    using assms by (simp_all add: is_cont_def)
  have r: "\<not> 240 + a < 128" "\<not> 240 + a < 194" "\<not> 240 + a < 224" "\<not> 240 + a < 240"
    "240 + a < 245"
    using assms(1) by simp_all
  show ?thesis
    unfolding utf8_step_def using n1 n2 c1 r by (simp del: add_less_cancel_left)
qed

lemma digits2: "(c::nat) = c div 64 * 64 + c mod 64"
  by simp

lemma digits3: "(c::nat) = c div 4096 * 4096 + c div 64 mod 64 * 64 + c mod 64"
  using mod_mult2_eq [of c 64 64] div_mult_mod_eq [of c 4096] by simp

lemma digits4:
  "(c::nat) = c div 262144 * 262144 + c div 4096 mod 64 * 4096 + c div 64 mod 64 * 64 + c mod 64"
  using mod_mult2_eq [of c 64 64] mod_mult2_eq [of c 4096 64] div_mult_mod_eq [of c 262144]
  by simp

lemma utf8_decode_char2:
  assumes "128 \<le> c" "c < 2048"
  shows "utf8_char c = [192 + c div 64, 128 + c mod 64]"
    and "utf8_decode e (utf8_char c @ rest) = c # utf8_decode e rest"
proof -
  define a d where "a = c div 64" and "d = c mod 64"
  have c: "c = a * 64 + d" unfolding a_def d_def by (rule digits2)
  have d: "d < 64" unfolding d_def by simp
  have a: "2 \<le> a" "a < 32" using c d assms by linarith+
  show u: "utf8_char c = [192 + c div 64, 128 + c mod 64]"
    using assms by (simp add: utf8_char_def)
  have "utf8_step (192 + a) ((128 + d) # rest) = (Some c, 1)"
    using step2_core [OF a d] c by simp
  then show "utf8_decode e (utf8_char c @ rest) = c # utf8_decode e rest"
    unfolding u a_def d_def by simp
qed

lemma utf8_decode_char3:
  assumes "2048 \<le> c" "c < 65536" "valid_cp c"
  shows "utf8_char c = [224 + c div 4096, 128 + c div 64 mod 64, 128 + c mod 64]"
    and "utf8_decode e (utf8_char c @ rest) = c # utf8_decode e rest"
proof -
  define a b d where "a = c div 4096" and "b = c div 64 mod 64" and "d = c mod 64"
  have c: "c = a * 4096 + b * 64 + d" unfolding a_def b_def d_def by (rule digits3)
  have bd: "b < 64" "d < 64" unfolding b_def d_def by simp_all
  have a: "a < 16" using c assms(2) by linarith
  have e0: "a = 0 \<Longrightarrow> 32 \<le> b" using c assms(1) bd by linarith
  have v: "c < 55296 \<or> 57344 \<le> c" using assms(3) by (auto simp: valid_cp_def)
  have ed: "a = 13 \<Longrightarrow> b < 32" using c v bd by linarith
  show u: "utf8_char c = [224 + c div 4096, 128 + c div 64 mod 64, 128 + c mod 64]"
    using assms by (simp add: utf8_char_def)
  have "utf8_step (224 + a) ((128 + b) # (128 + d) # rest) = (Some c, 2)"
    using step3_core [OF a bd e0 ed] c by simp
  then show "utf8_decode e (utf8_char c @ rest) = c # utf8_decode e rest"
    unfolding u a_def b_def d_def by simp
qed

lemma utf8_decode_char4:
  assumes "65536 \<le> c" "valid_cp c"
  shows "utf8_char c = [240 + c div 262144, 128 + c div 4096 mod 64, 128 + c div 64 mod 64,
                        128 + c mod 64]"
    and "utf8_decode e (utf8_char c @ rest) = c # utf8_decode e rest"
proof -
  define a b d f where "a = c div 262144" and "b = c div 4096 mod 64"
    and "d = c div 64 mod 64" and "f = c mod 64"
  have c: "c = a * 262144 + b * 4096 + d * 64 + f"
    unfolding a_def b_def d_def f_def by (rule digits4)
  have bd: "b < 64" "d < 64" "f < 64" unfolding b_def d_def f_def by simp_all
  have lt: "c < 1114112" using assms by (auto simp: valid_cp_def)
  have a: "a < 5" using c lt by linarith
  have e0: "a = 0 \<Longrightarrow> 16 \<le> b" using c assms(1) bd by linarith
  have e4: "a = 4 \<Longrightarrow> b < 16" using c lt bd by linarith
  show u: "utf8_char c = [240 + c div 262144, 128 + c div 4096 mod 64, 128 + c div 64 mod 64,
                        128 + c mod 64]"
    using assms by (simp add: utf8_char_def)
  have "utf8_step (240 + a) ((128 + b) # (128 + d) # (128 + f) # rest) = (Some c, 3)"
    using step4_core [OF a bd e0 e4] c by simp
  then show "utf8_decode e (utf8_char c @ rest) = c # utf8_decode e rest"
    unfolding u a_def b_def d_def f_def by simp
qed

lemma utf8_decode_char:
  assumes "valid_cp c"
  shows "utf8_decode e (utf8_char c @ rest) = c # utf8_decode e rest"
proof -
  consider "c < 128" | "128 \<le> c" "c < 2048" | "2048 \<le> c" "c < 65536" | "65536 \<le> c"
    by linarith
  then show ?thesis
  proof cases
    case 1
    then show ?thesis by (simp add: utf8_char_def step1)
  next
    case 2
    then show ?thesis by (rule utf8_decode_char2(2))
  next
    case 3
    then show ?thesis using assms by (rule utf8_decode_char3(2))
  next
    case 4
    then show ?thesis using assms by (rule utf8_decode_char4(2))
  qed
qed

lemma utf8_decode_bytes:
  "list_all valid_cp t \<Longrightarrow> utf8_decode e (utf8_bytes t @ rest) = t @ utf8_decode e rest"
  by (induction t) (simp_all add: utf8_bytes_def utf8_decode_char)

subsection \<open>Decoding a truncated encoding\<close>

lemma trunc2: "2 \<le> a \<Longrightarrow> a < 32 \<Longrightarrow> utf8_step (192 + a) [] = (None, 0)"
  by (simp add: utf8_step_def)

lemma trunc3:
  assumes "a < 16" "b < 64" "a = 0 \<Longrightarrow> 32 \<le> b" "a = 13 \<Longrightarrow> b < 32"
  shows "utf8_step (224 + a) [] = (None, 0)"
    and "utf8_step (224 + a) [128 + b] = (None, 1)"
proof -
  have n1: "\<not> (224 + a = 224 \<and> 128 + b < 160)" using assms(3) by auto
  have n2: "\<not> (224 + a = 237 \<and> 128 + b \<ge> 160)" using assms(4) by auto
  have c1: "is_cont (128 + b)" using assms by (simp_all add: is_cont_def)
  have r: "\<not> 224 + a < 128" "\<not> 224 + a < 194" "\<not> 224 + a < 224" "224 + a < 240"
    using assms(1) by simp_all
  show "utf8_step (224 + a) [] = (None, 0)"
    unfolding utf8_step_def using r by (simp del: add_less_cancel_left)
  show "utf8_step (224 + a) [128 + b] = (None, 1)"
    unfolding utf8_step_def using n1 n2 c1 r by (simp del: add_less_cancel_left)
qed

lemma trunc4:
  assumes "a < 5" "b < 64" "d < 64" "a = 0 \<Longrightarrow> 16 \<le> b" "a = 4 \<Longrightarrow> b < 16"
  shows "utf8_step (240 + a) [] = (None, 0)"
    and "utf8_step (240 + a) [128 + b] = (None, 1)"
    and "utf8_step (240 + a) [128 + b, 128 + d] = (None, 2)"
proof -
  have n1: "\<not> (240 + a = 240 \<and> 128 + b < 144)" using assms(4) by auto
  have n2: "\<not> (240 + a = 244 \<and> 128 + b \<ge> 144)" using assms(5) by auto
  have c1: "is_cont (128 + b)" "is_cont (128 + d)" using assms by (simp_all add: is_cont_def)
  have r: "\<not> 240 + a < 128" "\<not> 240 + a < 194" "\<not> 240 + a < 224" "\<not> 240 + a < 240"
    "240 + a < 245"
    using assms(1) by simp_all
  show "utf8_step (240 + a) [] = (None, 0)"
    unfolding utf8_step_def using r by (simp del: add_less_cancel_left)
  show "utf8_step (240 + a) [128 + b] = (None, 1)"
    unfolding utf8_step_def using n1 n2 c1 r by (simp del: add_less_cancel_left)
  show "utf8_step (240 + a) [128 + b, 128 + d] = (None, 2)"
    unfolding utf8_step_def using n1 n2 c1 r by (simp del: add_less_cancel_left)
qed

lemma utf8_char_length: "1 \<le> length (utf8_char c)" "length (utf8_char c) \<le> 4"
  by (simp_all add: utf8_char_def)

lemma utf8_decode_prefix:
  assumes "valid_cp c" "0 < n" "n < length (utf8_char c)"
  shows "utf8_decode [] (take n (utf8_char c)) = []"
proof -
  consider "c < 128" | "128 \<le> c" "c < 2048" | "2048 \<le> c" "c < 65536" | "65536 \<le> c"
    by linarith
  then show ?thesis
  proof cases
    case 1
    then have "length (utf8_char c) = 1" by (simp add: utf8_char_def)
    with assms show ?thesis by simp
  next
    case 2
    define a d where "a = c div 64" and "d = c mod 64"
    have c: "c = a * 64 + d" unfolding a_def d_def by (rule digits2)
    have d: "d < 64" unfolding d_def by simp
    have a: "2 \<le> a" "a < 32" using c d 2 by linarith+
    have u: "utf8_char c = [192 + a, 128 + d]"
      unfolding a_def d_def by (rule utf8_decode_char2(1) [OF 2])
    with assms have n: "n = 1" by simp
    show ?thesis unfolding u n using trunc2 [OF a] by simp
  next
    case 3
    define a b d where "a = c div 4096" and "b = c div 64 mod 64" and "d = c mod 64"
    have c: "c = a * 4096 + b * 64 + d" unfolding a_def b_def d_def by (rule digits3)
    have bd: "b < 64" "d < 64" unfolding b_def d_def by simp_all
    have a: "a < 16" using c 3(2) by linarith
    have e0: "a = 0 \<Longrightarrow> 32 \<le> b" using c 3(1) bd by linarith
    have v: "c < 55296 \<or> 57344 \<le> c" using assms(1) by (auto simp: valid_cp_def)
    have ed: "a = 13 \<Longrightarrow> b < 32" using c v bd by linarith
    have u: "utf8_char c = [224 + a, 128 + b, 128 + d]"
      unfolding a_def b_def d_def by (rule utf8_decode_char3(1) [OF 3 assms(1)])
    with assms have "n = 1 \<or> n = 2" by auto
    then show ?thesis
    proof
      assume "n = 1"
      then show ?thesis unfolding u using trunc3(1) [OF a bd(1) e0 ed] by simp
    next
      assume "n = 2"
      then show ?thesis unfolding u using trunc3(2) [OF a bd(1) e0 ed] by simp
    qed
  next
    case 4
    define a b d f where "a = c div 262144" and "b = c div 4096 mod 64"
      and "d = c div 64 mod 64" and "f = c mod 64"
    have c: "c = a * 262144 + b * 4096 + d * 64 + f"
      unfolding a_def b_def d_def f_def by (rule digits4)
    have bd: "b < 64" "d < 64" "f < 64" unfolding b_def d_def f_def by simp_all
    have lt: "c < 1114112" using assms(1) 4 by (auto simp: valid_cp_def)
    have a: "a < 5" using c lt by linarith
    have e0: "a = 0 \<Longrightarrow> 16 \<le> b" using c 4 bd by linarith
    have e4: "a = 4 \<Longrightarrow> b < 16" using c lt bd by linarith
    have u: "utf8_char c = [240 + a, 128 + b, 128 + d, 128 + f]"
      unfolding a_def b_def d_def f_def by (rule utf8_decode_char4(1) [OF 4 assms(1)])
    with assms have "n = 1 \<or> n = 2 \<or> n = 3" by auto
    then show ?thesis
    proof (elim disjE)
      assume "n = 1"
      then show ?thesis unfolding u using trunc4(1) [OF a bd(1,2) e0 e4] by simp
    next
      assume "n = 2"
      then show ?thesis unfolding u using trunc4(2) [OF a bd(1,2) e0 e4] by simp
    next
      assume "n = 3"
      then show ?thesis unfolding u using trunc4(3) [OF a bd(1,2) e0 e4]
        by (simp add: numeral_3_eq_3)
    qed
  qed
qed

text \<open>
  Cutting the encoding of a text after \<open>n\<close> bytes and decoding with \<open>errors="ignore"\<close>
  gives the longest prefix of the text whose encoding fits in \<open>n\<close> bytes.
\<close>

lemma decode_ignore_take:
  assumes "list_all valid_cp t"
  shows "\<exists>k \<le> length t. decode_ignore (take n (utf8_bytes t)) = take k t
           \<and> length (utf8_bytes (take k t)) \<le> n
           \<and> (k < length t \<longrightarrow> n < length (utf8_bytes (take (Suc k) t)))"
  using assms
proof (induction t arbitrary: n)
  case Nil
  then show ?case by (simp add: decode_ignore_def utf8_bytes_def)
next
  case (Cons c cs)
  then have vc: "valid_cp c" and vcs: "list_all valid_cp cs" by simp_all
  let ?m = "length (utf8_char c)"
  have ub: "utf8_bytes (c # cs) = utf8_char c @ utf8_bytes cs" by (simp add: utf8_bytes_def)
  show ?case
  proof (cases "?m \<le> n")
    case True
    from Cons.IH [OF vcs, of "n - ?m"] obtain k where k: "k \<le> length cs"
      "decode_ignore (take (n - ?m) (utf8_bytes cs)) = take k cs"
      "length (utf8_bytes (take k cs)) \<le> n - ?m"
      "k < length cs \<longrightarrow> n - ?m < length (utf8_bytes (take (Suc k) cs))"
      by blast
    have "take n (utf8_bytes (c # cs)) = utf8_char c @ take (n - ?m) (utf8_bytes cs)"
      using True by (simp add: ub)
    then have "decode_ignore (take n (utf8_bytes (c # cs))) = c # take k cs"
      using k(2) vc by (simp add: decode_ignore_def utf8_decode_char)
    then have a: "decode_ignore (take n (utf8_bytes (c # cs))) = take (Suc k) (c # cs)" by simp
    have b: "length (utf8_bytes (take (Suc k) (c # cs))) \<le> n"
      using k(3) True by (simp add: utf8_bytes_def)
    have d: "Suc k < length (c # cs) \<longrightarrow> n < length (utf8_bytes (take (Suc (Suc k)) (c # cs)))"
      using k(4) True by (auto simp: utf8_bytes_def)
    from a b d k(1) show ?thesis
      by (intro exI [of _ "Suc k"]) simp
  next
    case False
    then have lt: "n < ?m" by simp
    have tk: "take n (utf8_bytes (c # cs)) = take n (utf8_char c)"
      using lt by (simp add: ub)
    have "decode_ignore (take n (utf8_bytes (c # cs))) = []"
    proof (cases "n = 0")
      case True
      then show ?thesis by (simp add: decode_ignore_def)
    next
      case False
      then show ?thesis
        unfolding tk decode_ignore_def using utf8_decode_prefix [OF vc _ lt] by simp
    qed
    moreover have "n < length (utf8_bytes (take (Suc 0) (c # cs)))"
      using lt by (simp add: utf8_bytes_def)
    ultimately show ?thesis
      by (intro exI [of _ 0]) (simp add: utf8_bytes_def)
  qed
qed

subsection \<open>Comment stripping and minification\<close>

definition MAX_BYTES_PER_FILE :: nat where
  "MAX_BYTES_PER_FILE = 16000"

definition MAX_LINE_CHARS :: nat where
  "MAX_LINE_CHARS = 200"

text \<open>
  The characters that \<open>\s\<close> matches in a \<open>str\<close> pattern and that \<open>str.strip()\<close> removes:
  those for which \<open>str.isspace\<close> holds.
\<close>

definition is_space :: "codepoint \<Rightarrow> bool" where
  "is_space c =
     (c \<in> {9, 10, 11, 12, 13, 28, 29, 30, 31, 32, 133, 160, 5760}
      \<or> (8192 \<le> c \<and> c \<le> 8202)
      \<or> c \<in> {8232, 8233, 8239, 8287, 12288})"

text \<open>What follows the first occurrence of \<open>pat\<close> in a text, if there is one.\<close>

fun find_after :: "str \<Rightarrow> str \<Rightarrow> str option" where
  "find_after pat [] = (if pat = [] then Some [] else None)"
| "find_after pat (c # cs) =
     (if startswith (c # cs) pat then Some (drop (length pat) (c # cs))
      else find_after pat cs)"

lemma find_after_length: "find_after pat t = Some r \<Longrightarrow> length r \<le> length t"
  by (induction t) (auto split: if_splits)

text \<open>
  The patterns of \<open>COMMENT_RE\<close> are applied with \<open>rx.sub("", text)\<close>, which scans the text
  from the left and removes each match. For each pattern, the function below gives what
  follows the match that starts at the beginning of \<open>t\<close>, if there is one.

  \<open>(//.*?$)|(/\*.*?\*/)\<close> with \<open>DOTALL | MULTILINE\<close>: from \<open>//\<close> up to the next line feed
  or the end, or from \<open>/*\<close> through the next \<open>*/\<close>.
\<close>

definition c_comment_end :: "str \<Rightarrow> str option" where
  "c_comment_end t =
     (if startswith t (lit ''//'') then Some (dropWhile (\<lambda>x. x \<noteq> 10) (drop 2 t))
      else if startswith t (lit ''/*'') then find_after (lit ''*/'') (drop 2 t)
      else None)"

text \<open>
  \<open>(^\s*#.*?$)\<close> with \<open>MULTILINE\<close>, at the beginning of a line: white space (line feeds
  included), then \<open>#\<close>, up to the next line feed or the end.
\<close>

definition hash_comment_end :: "str \<Rightarrow> str option" where
  "hash_comment_end t =
     (case dropWhile is_space t of
        [] \<Rightarrow> None
      | h # rest \<Rightarrow> if h = 35 then Some (dropWhile (\<lambda>x. x \<noteq> 10) rest) else None)"

text \<open>\<open>('''.*?'''|""".*?""")\<close> with \<open>DOTALL\<close>.\<close>

definition triple_quote_end :: "str \<Rightarrow> str option" where
  "triple_quote_end t =
     (if startswith t [39, 39, 39] then find_after [39, 39, 39] (drop 3 t)
      else if startswith t [34, 34, 34] then find_after [34, 34, 34] (drop 3 t)
      else None)"

definition hash_comment_at :: "bool \<Rightarrow> bool \<Rightarrow> str \<Rightarrow> str option" where
  "hash_comment_at quotes bol t =
     (case (if bol then hash_comment_end t else None) of
        Some r \<Rightarrow> Some r
      | None \<Rightarrow> if quotes then triple_quote_end t else None)"

lemma startswith_nonempty: "startswith t (c # p) \<Longrightarrow> t \<noteq> []"
  by (auto simp: startswith_def)

lemma c_comment_end_length: "c_comment_end t = Some r \<Longrightarrow> length r < length t"
proof -
  assume a: "c_comment_end t = Some r"
  have two: "startswith t [x, y] \<Longrightarrow> 2 \<le> length t" for x y
    by (cases t; cases "tl t") (auto simp: startswith_def)
  show ?thesis
  proof (cases "startswith t (lit ''//'')")
    case True
    then have "2 \<le> length t" using two by (simp add: lit_def)
    moreover have "r = dropWhile (\<lambda>x. x \<noteq> 10) (drop 2 t)"
      using a True by (simp add: c_comment_end_def)
    then have "length r \<le> length (drop 2 t)"
      by (simp only: length_dropWhile_le)
    ultimately show ?thesis by simp
  next
    case False
    then have s: "startswith t (lit ''/*'')" and f: "find_after (lit ''*/'') (drop 2 t) = Some r"
      using a by (auto simp: c_comment_end_def split: if_splits)
    from s have "2 \<le> length t" using two by (simp add: lit_def)
    moreover have "length r \<le> length (drop 2 t)" using f by (rule find_after_length)
    ultimately show ?thesis by simp
  qed
qed

lemma hash_comment_end_length: "hash_comment_end t = Some r \<Longrightarrow> length r < length t"
proof -
  assume a: "hash_comment_end t = Some r"
  then obtain rest where d: "dropWhile is_space t = 35 # rest"
    and r: "r = dropWhile (\<lambda>x. x \<noteq> 10) rest"
    by (auto simp: hash_comment_end_def split: list.splits if_splits)
  have "length (dropWhile is_space t) \<le> length t" by (rule length_dropWhile_le)
  with d have "length rest < length t" by simp
  moreover have "length r \<le> length rest" unfolding r by (rule length_dropWhile_le)
  ultimately show ?thesis by simp
qed

lemma triple_quote_end_length: "triple_quote_end t = Some r \<Longrightarrow> length r < length t"
proof -
  assume a: "triple_quote_end t = Some r"
  then obtain q where s: "startswith t [q, q, q]" and f: "find_after [q, q, q] (drop 3 t) = Some r"
    by (auto simp: triple_quote_end_def split: if_splits)
  from s have "t \<noteq> []" by (rule startswith_nonempty)
  moreover have "length r \<le> length (drop 3 t)" using f by (rule find_after_length)
  ultimately show ?thesis by (cases t) auto
qed

lemma hash_comment_at_length: "hash_comment_at quotes bol t = Some r \<Longrightarrow> length r < length t"
  by (auto simp: hash_comment_at_def hash_comment_end_length triple_quote_end_length
           split: option.splits if_splits)

function strip_c_comments :: "str \<Rightarrow> str" where
  "strip_c_comments [] = []"
| "strip_c_comments (c # cs) =
     (case c_comment_end (c # cs) of
        Some rest \<Rightarrow> strip_c_comments rest
      | None \<Rightarrow> c # strip_c_comments cs)"
  by pat_completeness auto
termination
  by (relation "measure length") (auto dest: c_comment_end_length)

text \<open>\<open>bol\<close>: the position is at the beginning of the text or just after a line feed.\<close>

function strip_hash_comments :: "bool \<Rightarrow> bool \<Rightarrow> str \<Rightarrow> str" where
  "strip_hash_comments quotes bol [] = []"
| "strip_hash_comments quotes bol (c # cs) =
     (case hash_comment_at quotes bol (c # cs) of
        Some rest \<Rightarrow> strip_hash_comments quotes False rest
      | None \<Rightarrow> c # strip_hash_comments quotes (c = 10) cs)"
  by pat_completeness auto
termination
  by (relation "measure (\<lambda>(quotes, bol, t). length t)") (auto dest: hash_comment_at_length)

text \<open>
  \<open>COMMENT_RE.get(lang, COMMENT_RE["default"]).sub("", text)\<close>; the default pattern
  \<open>$^\<close> only has empty matches, so it leaves the text as it is.
\<close>

definition comment_sub :: "str \<Rightarrow> str \<Rightarrow> str" where
  "comment_sub lang text =
     (if lang \<in> set (map lit [''js'', ''ts'', ''java'', ''kt'', ''go'']) then strip_c_comments text
      else if lang = lit ''py'' then strip_hash_comments True True text
      else if lang \<in> set (map lit [''sh'', ''yml'', ''yaml'', ''properties''])
        then strip_hash_comments False True text
      else text)"

text \<open>\<open>re.sub(r"\s+", " ", line)\<close>; \<open>prev\<close>: the previous character was white space.\<close>

fun collapse_ws :: "bool \<Rightarrow> str \<Rightarrow> str" where
  "collapse_ws prev [] = []"
| "collapse_ws prev (c # cs) =
     (if is_space c then (if prev then collapse_ws True cs else 32 # collapse_ws True cs)
      else c # collapse_ws False cs)"

definition strip_ws :: "str \<Rightarrow> str" where
  "strip_ws t = rev (dropWhile is_space (rev (dropWhile is_space t)))"

text \<open>The body of the loop over the lines: \<open>None\<close> for a line that is dropped.\<close>

definition minify_line :: "str \<Rightarrow> str option" where
  "minify_line line0 =
     (let line = strip_ws (collapse_ws False line0)
      in if line = [] then None
         else if length line > MAX_LINE_CHARS then Some (take MAX_LINE_CHARS line @ [32, 8230])
         else Some line)"

definition TRUNCATED_MARK :: str where
  "TRUNCATED_MARK = [10, 8230] @ lit '' [TRUNCATED]''"

definition minified :: "(str \<Rightarrow> str) \<Rightarrow> str \<Rightarrow> str \<Rightarrow> str" where
  "minified lower text ext =
     (let lang = lstrip_chr dot (lower ext);
          text' = comment_sub lang text
      in join [10] (List.map_filter minify_line (splitlines text')))"

definition strip_comments_and_minify :: "(str \<Rightarrow> str) \<Rightarrow> str \<Rightarrow> str \<Rightarrow> error + str" where
  "strip_comments_and_minify lower text ext =
     (let out = minified lower text ext
      in case utf8_encode out of
           Inl e \<Rightarrow> Inl e
         | Inr bytes \<Rightarrow>
             if length bytes > MAX_BYTES_PER_FILE
             then Inr (decode_ignore (take MAX_BYTES_PER_FILE bytes) @ TRUNCATED_MARK)
             else Inr out)"

definition strip_and_cap_bytes :: "(str \<Rightarrow> str) \<Rightarrow> nat list \<Rightarrow> str \<Rightarrow> error + str" where
  "strip_and_cap_bytes lower content ext =
     strip_comments_and_minify lower (redact_secrets lower (decode_replace content)) ext"

subsection \<open>Size of a sanitized snippet\<close>

lemma utf8_bytes_append: "utf8_bytes (a @ b) = utf8_bytes a @ utf8_bytes b"
  by (simp add: utf8_bytes_def)

lemma utf8_encode_Inr: "utf8_encode t = Inr bytes \<longleftrightarrow> list_all valid_cp t \<and> bytes = utf8_bytes t"
  by (auto simp: utf8_encode_def)

lemma truncated_mark_bytes: "length (utf8_bytes TRUNCATED_MARK) = 16"
  by (simp add: TRUNCATED_MARK_def utf8_bytes_def utf8_char_def lit_def)

lemma truncated_mark_valid: "list_all valid_cp TRUNCATED_MARK"
  by (simp add: TRUNCATED_MARK_def valid_cp_def lit_def)

lemma list_all_take: "list_all P xs \<Longrightarrow> list_all P (take k xs)"
  by (auto simp: list_all_iff dest: in_set_takeD)

text \<open>What the function returns, in terms of the minified text and its encoding.\<close>

lemma strip_comments_and_minify_cases:
  assumes "list_all valid_cp (minified lower text ext)"
  shows "length (utf8_bytes (minified lower text ext)) \<le> MAX_BYTES_PER_FILE
           \<Longrightarrow> strip_comments_and_minify lower text ext = Inr (minified lower text ext)"
    and "length (utf8_bytes (minified lower text ext)) > MAX_BYTES_PER_FILE
           \<Longrightarrow> \<exists>k < length (minified lower text ext).
                 strip_comments_and_minify lower text ext
                   = Inr (take k (minified lower text ext) @ TRUNCATED_MARK)
                 \<and> length (utf8_bytes (take k (minified lower text ext))) \<le> MAX_BYTES_PER_FILE
                 \<and> MAX_BYTES_PER_FILE
                     < length (utf8_bytes (take (Suc k) (minified lower text ext)))"
proof -
  let ?m = "minified lower text ext"
  have enc: "utf8_encode ?m = Inr (utf8_bytes ?m)" using assms by (simp add: utf8_encode_def)
  show "length (utf8_bytes ?m) \<le> MAX_BYTES_PER_FILE
          \<Longrightarrow> strip_comments_and_minify lower text ext = Inr ?m"
    by (simp add: strip_comments_and_minify_def enc Let_def)
  assume big: "length (utf8_bytes ?m) > MAX_BYTES_PER_FILE"
  from decode_ignore_take [OF assms, of MAX_BYTES_PER_FILE]
  obtain k where k: "k \<le> length ?m"
    "decode_ignore (take MAX_BYTES_PER_FILE (utf8_bytes ?m)) = take k ?m"
    "length (utf8_bytes (take k ?m)) \<le> MAX_BYTES_PER_FILE"
    "k < length ?m \<longrightarrow> MAX_BYTES_PER_FILE < length (utf8_bytes (take (Suc k) ?m))"
    by blast
  have "k \<noteq> length ?m" using k(3) big by auto
  with k(1) have lt: "k < length ?m" by simp
  have "strip_comments_and_minify lower text ext = Inr (take k ?m @ TRUNCATED_MARK)"
    using big k(2) by (simp add: strip_comments_and_minify_def enc Let_def)
  with lt k(3,4)
  show "\<exists>k < length ?m.
          strip_comments_and_minify lower text ext = Inr (take k ?m @ TRUNCATED_MARK)
          \<and> length (utf8_bytes (take k ?m)) \<le> MAX_BYTES_PER_FILE
          \<and> MAX_BYTES_PER_FILE < length (utf8_bytes (take (Suc k) ?m))"
    by blast
qed

lemma strip_comments_and_minify_Inr:
  "strip_comments_and_minify lower text ext = Inr out
     \<Longrightarrow> list_all valid_cp (minified lower text ext)"
  by (auto simp: strip_comments_and_minify_def Let_def utf8_encode_def
           split: sum.splits if_splits)

lemma strip_comments_and_minify_size:
  assumes "strip_comments_and_minify lower text ext = Inr out"
  shows "list_all valid_cp out \<and> length (utf8_bytes out) \<le> MAX_BYTES_PER_FILE + 16"
proof -
  let ?m = "minified lower text ext"
  have v: "list_all valid_cp ?m" using assms by (rule strip_comments_and_minify_Inr)
  show ?thesis
  proof (cases "length (utf8_bytes ?m) \<le> MAX_BYTES_PER_FILE")
    case True
    with strip_comments_and_minify_cases(1) [OF v] assms have "out = ?m" by simp
    with v True show ?thesis by simp
  next
    case False
    then have "length (utf8_bytes ?m) > MAX_BYTES_PER_FILE" by simp
    from strip_comments_and_minify_cases(2) [OF v this] assms
    obtain k where k: "out = take k ?m @ TRUNCATED_MARK"
      "length (utf8_bytes (take k ?m)) \<le> MAX_BYTES_PER_FILE" by auto
    have "list_all valid_cp out"
      unfolding k(1) using v truncated_mark_valid by (simp add: list_all_take)
    moreover have "length (utf8_bytes out) \<le> MAX_BYTES_PER_FILE + 16"
      unfolding k(1) using k(2) by (simp add: utf8_bytes_append truncated_mark_bytes)
    ultimately show ?thesis by simp
  qed
qed

lemma find_after_set: "find_after pat t = Some r \<Longrightarrow> set r \<subseteq> set t"
proof (induction t)
  case Nil
  then show ?case by (auto split: if_splits)
next
  case (Cons c cs)
  show ?case
  proof (cases "startswith (c # cs) pat")
    case True
    with Cons.prems have "r = drop (length pat) (c # cs)" by simp
    then show ?thesis using set_drop_subset [of "length pat" "c # cs"] by simp
  next
    case False
    with Cons show ?thesis by auto
  qed
qed

lemma set_dropWhile_subset: "set (dropWhile P xs) \<subseteq> set xs"
  by (auto dest: set_dropWhileD)

lemma c_comment_end_set: "c_comment_end t = Some r \<Longrightarrow> set r \<subseteq> set t"
proof -
  assume a: "c_comment_end t = Some r"
  have d: "set (drop 2 t) \<subseteq> set t" by (rule set_drop_subset)
  show ?thesis
  proof (cases "startswith t (lit ''//'')")
    case True
    with a have "r = dropWhile (\<lambda>x. x \<noteq> 10) (drop 2 t)" by (simp add: c_comment_end_def)
    then show ?thesis using set_dropWhile_subset [of "\<lambda>x. x \<noteq> 10" "drop 2 t"] d by blast
  next
    case False
    show ?thesis
    proof (cases "startswith t (lit ''/*'')")
      case True
      with a False have "find_after (lit ''*/'') (drop 2 t) = Some r"
        by (simp add: c_comment_end_def)
      then show ?thesis using find_after_set d by blast
    next
      case no: False
      with a False show ?thesis by (simp add: c_comment_end_def)
    qed
  qed
qed

lemma hash_comment_end_set: "hash_comment_end t = Some r \<Longrightarrow> set r \<subseteq> set t"
proof -
  assume a: "hash_comment_end t = Some r"
  show ?thesis
  proof (cases "dropWhile is_space t")
    case Nil
    with a show ?thesis by (simp add: hash_comment_end_def)
  next
    case (Cons h rest)
    show ?thesis
    proof (cases "h = 35")
      case True
      with a Cons have r: "r = dropWhile (\<lambda>x. x \<noteq> 10) rest"
        by (simp add: hash_comment_end_def)
      have "set rest \<subseteq> set (dropWhile is_space t)" using Cons by auto
      then have "set rest \<subseteq> set t" using set_dropWhile_subset [of is_space t] by blast
      then show ?thesis
        unfolding r using set_dropWhile_subset [of "\<lambda>x. x \<noteq> 10" rest] by blast
    next
      case False
      with a Cons show ?thesis by (simp add: hash_comment_end_def)
    qed
  qed
qed

lemma triple_quote_end_set: "triple_quote_end t = Some r \<Longrightarrow> set r \<subseteq> set t"
proof -
  assume a: "triple_quote_end t = Some r"
  have d: "set (drop 3 t) \<subseteq> set t" by (rule set_drop_subset)
  show ?thesis
  proof (cases "startswith t [39, 39, 39]")
    case True
    with a have "find_after [39, 39, 39] (drop 3 t) = Some r"
      by (simp add: triple_quote_end_def)
    then show ?thesis using find_after_set d by blast
  next
    case False
    show ?thesis
    proof (cases "startswith t [34, 34, 34]")
      case True
      with a False have "find_after [34, 34, 34] (drop 3 t) = Some r"
        by (simp add: triple_quote_end_def)
      then show ?thesis using find_after_set d by blast
    next
      case no: False
      with a False show ?thesis by (simp add: triple_quote_end_def)
    qed
  qed
qed

lemma hash_comment_at_set: "hash_comment_at quotes bol t = Some r \<Longrightarrow> set r \<subseteq> set t"
proof -
  assume a: "hash_comment_at quotes bol t = Some r"
  show ?thesis
  proof (cases "if bol then hash_comment_end t else None")
    case None
    with a have "quotes" and "triple_quote_end t = Some r"
      by (simp_all add: hash_comment_at_def split: if_splits)
    then show ?thesis using triple_quote_end_set by blast
  next
    case (Some r')
    with a have "r' = r" by (simp add: hash_comment_at_def)
    with Some have "hash_comment_end t = Some r" by (simp split: if_splits)
    then show ?thesis by (rule hash_comment_end_set)
  qed
qed

lemma strip_c_comments_set: "set (strip_c_comments t) \<subseteq> set t"
proof (induction t rule: strip_c_comments.induct)
  case 1
  then show ?case by simp
next
  case (2 c cs)
  show ?case
  proof (cases "c_comment_end (c # cs)")
    case None
    with 2 show ?thesis by auto
  next
    case (Some rest)
    with 2 c_comment_end_set [OF Some] show ?thesis by auto
  qed
qed

lemma strip_hash_comments_set: "set (strip_hash_comments quotes bol t) \<subseteq> set t"
proof (induction quotes bol t rule: strip_hash_comments.induct)
  case (1 quotes bol)
  then show ?case by simp
next
  case (2 quotes bol c cs)
  show ?case
  proof (cases "hash_comment_at quotes bol (c # cs)")
    case None
    with 2 show ?thesis by auto
  next
    case (Some rest)
    with 2 hash_comment_at_set [OF Some] show ?thesis by auto
  qed
qed

lemma comment_sub_set: "set (comment_sub lang text) \<subseteq> set text"
  using strip_c_comments_set [of "text"] strip_hash_comments_set [of True True "text"]
    strip_hash_comments_set [of False True "text"]
  by (simp add: comment_sub_def)

lemma splitlines_set: "l \<in> set (splitlines t) \<Longrightarrow> set l \<subseteq> set t"
proof (induction t arbitrary: l rule: splitlines.induct)
  case 1
  then show ?case by simp
next
  case (2 c)
  then show ?case by (auto split: if_splits)
next
  case (3 c d cs)
  show ?case
  proof (cases "c = 13 \<and> d = 10")
    case True
    with 3 show ?thesis by auto
  next
    case nocrlf: False
    show ?thesis
    proof (cases "is_linebreak c")
      case True
      with 3 nocrlf show ?thesis by auto
    next
      case False
      show ?thesis
      proof (cases "splitlines (d # cs)")
        case Nil
        with 3 nocrlf False show ?thesis by auto
      next
        case (Cons x xs)
        with "3.prems" nocrlf False have "l = c # x \<or> l \<in> set xs" by auto
        moreover have "set x \<subseteq> set (d # cs)" "\<And>y. y \<in> set xs \<Longrightarrow> set y \<subseteq> set (d # cs)"
          using "3.IH"(3) [OF nocrlf False] Cons by auto
        ultimately show ?thesis by auto
      qed
    qed
  qed
qed

lemma collapse_ws_set: "set (collapse_ws prev t) \<subseteq> insert 32 (set t)"
  by (induction prev t rule: collapse_ws.induct) auto

lemma strip_ws_set: "set (strip_ws t) \<subseteq> set t"
proof -
  have "set (strip_ws t) \<subseteq> set (rev (dropWhile is_space t))"
    unfolding strip_ws_def set_rev [of "dropWhile is_space (rev (dropWhile is_space t))"]
    by (rule set_dropWhile_subset)
  then show ?thesis using set_dropWhile_subset [of is_space t] by auto
qed

lemma minify_line_set: "minify_line l = Some l' \<Longrightarrow> set l' \<subseteq> set l \<union> {32, 8230}"
proof -
  assume a: "minify_line l = Some l'"
  let ?s = "strip_ws (collapse_ws False l)"
  have s: "set ?s \<subseteq> set l \<union> {32, 8230}"
    using strip_ws_set [of "collapse_ws False l"] collapse_ws_set [of False l] by auto
  from a have "l' = ?s \<or> l' = take MAX_LINE_CHARS ?s @ [32, 8230]"
    by (auto simp: minify_line_def Let_def split: if_splits)
  then show ?thesis
  proof
    assume "l' = ?s"
    with s show ?thesis by simp
  next
    assume "l' = take MAX_LINE_CHARS ?s @ [32, 8230]"
    moreover have "set (take MAX_LINE_CHARS ?s) \<subseteq> set ?s" by (rule set_take_subset)
    ultimately show ?thesis using s by auto
  qed
qed

lemma join_set: "set (join sep xs) \<subseteq> set sep \<union> \<Union> (set ` set xs)"
  by (induction sep xs rule: join.induct) auto

lemma minified_set: "set (minified lower text ext) \<subseteq> set text \<union> {10, 32, 8230}"
proof
  fix c assume "c \<in> set (minified lower text ext)"
  then have "c \<in> set [10] \<union> \<Union> (set ` set (List.map_filter minify_line
      (splitlines (comment_sub (lstrip_chr dot (lower ext)) text))))"
    using join_set unfolding minified_def Let_def by blast
  then consider "c = 10"
    | l l' where "l \<in> set (splitlines (comment_sub (lstrip_chr dot (lower ext)) text))"
        "minify_line l = Some l'" "c \<in> set l'"
    by (auto simp: List.map_filter_def)
  then show "c \<in> set text \<union> {10, 32, 8230}"
  proof cases
    case 1
    then show ?thesis by simp
  next
    case 2
    from minify_line_set [OF 2(2)] 2(3) have "c \<in> set l \<union> {32, 8230}" by blast
    moreover have "set l \<subseteq> set text"
      using splitlines_set [OF 2(1)] comment_sub_set by blast
    ultimately show ?thesis by auto
  qed
qed

lemma minified_valid:
  assumes "list_all valid_cp text"
  shows "list_all valid_cp (minified lower text ext)"
proof -
  have "valid_cp 10" "valid_cp 32" "valid_cp 8230" by (simp_all add: valid_cp_def)
  with assms minified_set [of lower "text" ext] show ?thesis
    by (auto simp: list_all_iff)
qed

text \<open>
  C3, as the code has it. On a text without surrogates \<open>strip_comments_and_minify\<close>
  returns a snippet. The encoded snippet has at most \<open>MAX_BYTES_PER_FILE + 16\<close> bytes:
  a minified text within the ceiling is returned as it is; a longer one is cut to its
  longest prefix of whole characters whose encoding fits in the ceiling, and the
  truncation marker (a line feed and \<open>\<dots> [TRUNCATED]\<close>, 16 bytes) is appended to it.
\<close>

theorem strip_comments_and_minify_bound:
  "(list_all valid_cp txt \<longrightarrow> (\<exists>out. strip_comments_and_minify lower txt ext = Inr out))
   \<and> (\<forall>out. strip_comments_and_minify lower txt ext = Inr out \<longrightarrow>
         length (utf8_bytes out) \<le> MAX_BYTES_PER_FILE + 16
         \<and> (length (utf8_bytes (minified lower txt ext)) \<le> MAX_BYTES_PER_FILE
              \<longrightarrow> out = minified lower txt ext)
         \<and> (length (utf8_bytes (minified lower txt ext)) > MAX_BYTES_PER_FILE
              \<longrightarrow> (\<exists>k < length (minified lower txt ext).
                     out = take k (minified lower txt ext) @ TRUNCATED_MARK
                     \<and> length (utf8_bytes (take k (minified lower txt ext))) \<le> MAX_BYTES_PER_FILE
                     \<and> MAX_BYTES_PER_FILE
                         < length (utf8_bytes (take (Suc k) (minified lower txt ext))))))"
proof (intro conjI impI allI)
  let ?m = "minified lower txt ext"
  show "\<exists>out. strip_comments_and_minify lower txt ext = Inr out" if "list_all valid_cp txt"
  proof -
    have v: "list_all valid_cp ?m" using that by (rule minified_valid)
    show ?thesis
    proof (cases "length (utf8_bytes ?m) \<le> MAX_BYTES_PER_FILE")
      case True
      then show ?thesis using strip_comments_and_minify_cases(1) [OF v] by blast
    next
      case False
      then have "length (utf8_bytes ?m) > MAX_BYTES_PER_FILE" by simp
      then show ?thesis using strip_comments_and_minify_cases(2) [OF v] by blast
    qed
  qed
next
  fix out assume a: "strip_comments_and_minify lower txt ext = Inr out"
  then show "length (utf8_bytes out) \<le> MAX_BYTES_PER_FILE + 16"
    using strip_comments_and_minify_size by blast
next
  fix out assume a: "strip_comments_and_minify lower txt ext = Inr out"
    and s: "length (utf8_bytes (minified lower txt ext)) \<le> MAX_BYTES_PER_FILE"
  have v: "list_all valid_cp (minified lower txt ext)"
    using a by (rule strip_comments_and_minify_Inr)
  from strip_comments_and_minify_cases(1) [OF v s] a
  show "out = minified lower txt ext" by simp
next
  fix out assume a: "strip_comments_and_minify lower txt ext = Inr out"
    and b: "length (utf8_bytes (minified lower txt ext)) > MAX_BYTES_PER_FILE"
  have v: "list_all valid_cp (minified lower txt ext)"
    using a by (rule strip_comments_and_minify_Inr)
  from strip_comments_and_minify_cases(2) [OF v b] a
  show "\<exists>k < length (minified lower txt ext).
          out = take k (minified lower txt ext) @ TRUNCATED_MARK
          \<and> length (utf8_bytes (take k (minified lower txt ext))) \<le> MAX_BYTES_PER_FILE
          \<and> MAX_BYTES_PER_FILE < length (utf8_bytes (take (Suc k) (minified lower txt ext)))"
    by auto
qed

theorem strip_comments_and_minify_bound_witness:
  "list_all valid_cp (lit ''x = 1'')
   \<and> (\<exists>out. strip_comments_and_minify ascii_lower (lit ''x = 1'') (lit ''.js'') = Inr out
            \<and> length (utf8_bytes out) \<le> MAX_BYTES_PER_FILE + 16)"
proof -
  have v: "list_all valid_cp (lit ''x = 1'')" by (simp add: lit_def valid_cp_def)
  from strip_comments_and_minify_bound [of "lit ''x = 1''" ascii_lower "lit ''.js''"] v
  show ?thesis by blast
qed

subsection \<open>A snippet longer than the ceiling\<close>

text \<open>81 lines of 200 letters \<open>a\<close>, each ended by a line feed.\<close>

definition long_text :: str where
  "long_text = concat (replicate 81 (replicate 200 97 @ [10]))"

lemma splitlines_line:
  assumes "\<forall>c \<in> set l. \<not> is_linebreak c"
  shows "splitlines (l @ 10 # rest) = l # splitlines rest"
  using assms
proof (induction l)
  case Nil
  show ?case by (cases rest) (simp_all add: is_linebreak_def)
next
  case (Cons c l)
  obtain d cs where dc: "l @ 10 # rest = d # cs" by (cases "l @ 10 # rest") auto
  have nb: "\<not> is_linebreak c" using Cons.prems by simp
  then have n13: "c \<noteq> 13" by (auto simp: is_linebreak_def)
  have ih: "splitlines (d # cs) = l # splitlines rest" using Cons dc by simp
  have "splitlines (c # d # cs) = (c # l) # splitlines rest"
    using nb n13 ih by simp
  then show ?case using dc by simp
qed

lemma splitlines_replicate:
  assumes "\<forall>c \<in> set l. \<not> is_linebreak c"
  shows "splitlines (concat (replicate n (l @ [10]))) = replicate n l"
proof (induction n)
  case 0
  then show ?case by simp
next
  case (Suc n)
  have "splitlines (l @ 10 # concat (replicate n (l @ [10])))
          = l # splitlines (concat (replicate n (l @ [10])))"
    using assms by (rule splitlines_line)
  with Suc show ?case by simp
qed

lemma collapse_ws_id: "\<forall>c \<in> set l. \<not> is_space c \<Longrightarrow> collapse_ws p l = l"
  by (induction l arbitrary: p) simp_all

lemma strip_ws_id:
  assumes "\<forall>c \<in> set l. \<not> is_space c"
  shows "strip_ws l = l"
proof -
  have a: "dropWhile is_space l = l" using assms by (cases l) simp_all
  have "\<forall>c \<in> set (rev l). \<not> is_space c" using assms by simp
  then have b: "dropWhile is_space (rev l) = rev l" by (cases "rev l") simp_all
  show ?thesis by (simp add: strip_ws_def a b)
qed

lemma minify_line_id:
  assumes "\<forall>c \<in> set l. \<not> is_space c" "l \<noteq> []" "length l \<le> MAX_LINE_CHARS"
  shows "minify_line l = Some l"
  using assms by (simp add: minify_line_def collapse_ws_id strip_ws_id)

lemma map_filter_replicate:
  "f x = Some y \<Longrightarrow> List.map_filter f (replicate n x) = replicate n y"
  by (induction n) (simp_all add: List.map_filter_def)

lemma length_join_replicate:
  "length (join [s] (replicate (Suc n) l)) = Suc n * length l + n"
proof (induction n)
  case 0
  then show ?case by simp
next
  case (Suc n)
  have "join [s] (replicate (Suc (Suc n)) l) = l @ [s] @ join [s] (replicate (Suc n) l)"
    by simp
  then show ?case using Suc by simp
qed

lemma utf8_bytes_ascii: "\<forall>c \<in> set t. c < 128 \<Longrightarrow> utf8_bytes t = t"
  by (induction t) (simp_all add: utf8_bytes_def utf8_char_def)

lemma valid_ascii: "\<forall>c \<in> set t. c < 128 \<Longrightarrow> list_all valid_cp t"
  by (auto simp: list_all_iff valid_cp_def)

lemma utf8_decode_ascii: "\<forall>c \<in> set t. c < 128 \<Longrightarrow> utf8_decode e t = t"
  by (induction t) (simp_all add: step1)

lemma long_lines: "splitlines long_text = replicate 81 (replicate 200 97)"
  unfolding long_text_def by (rule splitlines_replicate) (simp add: is_linebreak_def)

lemma txt_lang: "lstrip_chr dot (ascii_lower (lit ''.txt'')) = lit ''txt''"
  by (simp add: lstrip_chr_def ascii_lower_def lit_def)

lemma txt_comment_sub: "comment_sub (lit ''txt'') t = t"
  by (simp add: comment_sub_def lit_def)

lemma long_minified:
  "minified ascii_lower long_text (lit ''.txt'') = join [10] (replicate 81 (replicate 200 97))"
proof -
  have "minify_line (replicate 200 97) = Some (replicate 200 97)"
    by (rule minify_line_id) (simp_all add: is_space_def MAX_LINE_CHARS_def)
  then have "List.map_filter minify_line (replicate 81 (replicate 200 97))
               = replicate 81 (replicate 200 97)"
    by (rule map_filter_replicate)
  then show ?thesis
    by (simp add: minified_def txt_lang txt_comment_sub long_lines)
qed

lemma long_ascii: "\<forall>c \<in> set (join [10] (replicate 81 (replicate 200 97))). c < 128"
proof
  fix c assume "c \<in> set (join [10] (replicate 81 (replicate 200 97)))"
  then have "c \<in> set [10] \<union> \<Union> (set ` set (replicate 81 (replicate 200 (97::nat))))"
    using join_set by blast
  then show "c < 128" by auto
qed

lemma long_length: "length (join [10] (replicate 81 (replicate 200 (97::nat)))) = 16280"
proof -
  have "length (join [10] (replicate (Suc 80) (replicate 200 (97::nat)))) = Suc 80 * 200 + 80"
    by (simp only: length_join_replicate length_replicate)
  then show ?thesis by simp
qed

text \<open>
  C3 as stated fails: the 81 lines minify to 16280 bytes, the sanitized snippet is the
  first 16000 of them followed by the marker, and its encoding has 16016 bytes.
\<close>

theorem strip_comments_and_minify_exceeds_counterexample:
  "strip_comments_and_minify ascii_lower long_text (lit ''.txt'')
     = Inr (take 16000 (join [10] (replicate 81 (replicate 200 97))) @ TRUNCATED_MARK)
   \<and> length (utf8_bytes (take 16000 (join [10] (replicate 81 (replicate 200 97)))
                          @ TRUNCATED_MARK)) = 16016
   \<and> MAX_BYTES_PER_FILE = 16000"
proof -
  let ?m = "join [10] (replicate 81 (replicate 200 (97::nat)))"
  have b: "utf8_bytes ?m = ?m" using long_ascii by (rule utf8_bytes_ascii)
  have e: "utf8_encode ?m = Inr ?m"
    using valid_ascii [OF long_ascii] b by (simp add: utf8_encode_def)
  have ta: "\<forall>c \<in> set (take 16000 ?m). c < 128"
    using long_ascii by (auto dest: in_set_takeD)
  have d: "decode_ignore (take 16000 ?m) = take 16000 ?m"
    unfolding decode_ignore_def using ta by (rule utf8_decode_ascii)
  have r: "strip_comments_and_minify ascii_lower long_text (lit ''.txt'')
          = Inr (take 16000 ?m @ TRUNCATED_MARK)"
    by (simp add: strip_comments_and_minify_def long_minified e long_length d
          MAX_BYTES_PER_FILE_def)
  have "length (utf8_bytes (take 16000 ?m @ TRUNCATED_MARK)) = 16016"
    using utf8_bytes_ascii [OF ta]
    by (simp add: utf8_bytes_append truncated_mark_bytes long_length)
  with r show ?thesis by (simp add: MAX_BYTES_PER_FILE_def)
qed

section \<open>Ranking of the candidates\<close>

text \<open>The local function \<open>score\<close> of the handler.\<close>

definition score :: "(str \<Rightarrow> str) \<Rightarrow> str \<Rightarrow> int" where
  "score lower p =
     (let p_l = lower p;
          base = basename p_l
      in if endswith p_l (lit ''.tf'') \<or> endswith p_l (lit ''.tfvars'')
            \<or> endswith p_l (lit ''.tf.json'') then 100
         else if contains p_l (lit ''docker'') \<or> contains p_l (lit ''compose'') then 90
         else if base \<in> set (map lit [''package.json'', ''pom.xml'', ''build.gradle'',
                                        ''build.gradle.kts'']) then 80
         else if contains p_l (lit ''application'')
                 \<and> (endswith p_l (lit ''.yml'') \<or> endswith p_l (lit ''.yaml'')
                      \<or> endswith p_l (lit ''.properties'')) then 70
         else if startswith base (lit ''readme'') then 60
         else 10)"

text \<open>
  \<open>candidates.sort(key=score, reverse=True)\<close>. The sort of Python is stable and stays
  stable under \<open>reverse=True\<close>: candidates of equal score keep their order in the list.
  Sorting by the negated score with the stable \<open>sort_key\<close> does the same.
\<close>

definition sort_by_score :: "(str \<Rightarrow> str) \<Rightarrow> str list \<Rightarrow> str list" where
  "sort_by_score lower candidates = sort_key (\<lambda>p. - score lower p) candidates"

text \<open>
  \<open>project_files\<close> is a Python set. The handler iterates it in
  \<open>[p for p in project_files if is_signal_path(p)]\<close>; the order in which a set yields its
  members is fixed by the hashes of the strings and not by the order of insertion. It is
  the parameter \<open>set_iter\<close>, which maps the members (in the order of insertion, as
  \<open>detect_project_roots\<close> keeps them) to the sequence in which the set yields them.
\<close>

definition ranked_candidates ::
  "(str \<Rightarrow> str) \<Rightarrow> (str list \<Rightarrow> str list) \<Rightarrow> str list \<Rightarrow> str list" where
  "ranked_candidates lower set_iter project_files =
     sort_by_score lower (filter (is_signal_path lower) (set_iter project_files))"

subsection \<open>Properties of the ranking\<close>

lemma sort_by_score_descending:
  "sorted_wrt (\<lambda>a b. score lower b \<le> score lower a) (sort_by_score lower cs)"
proof -
  have "sorted (map (\<lambda>p. - score lower p) (sort_by_score lower cs))"
    by (simp add: sort_by_score_def)
  then show ?thesis by (simp add: sorted_map)
qed

lemma sort_by_score_stable:
  "filter (\<lambda>p. score lower p = k) (sort_by_score lower cs) = filter (\<lambda>p. score lower p = k) cs"
proof -
  have "filter (\<lambda>p. - score lower p = - k) (sort_key (\<lambda>p. - score lower p) cs)
          = filter (\<lambda>p. - score lower p = - k) cs"
    by (rule sort_key_stable)
  then show ?thesis by (simp add: sort_by_score_def)
qed

lemma sort_by_score_set: "set (sort_by_score lower cs) = set cs"
  by (simp add: sort_by_score_def)

lemma sort_by_score_length: "length (sort_by_score lower cs) = length cs"
  by (simp add: sort_by_score_def)

lemma score_examples:
  "score ascii_lower (lit ''main.tf'') = 100"
  "score ascii_lower (lit ''Dockerfile'') = 90"
  "score ascii_lower (lit ''package.json'') = 80"
  "score ascii_lower (lit ''README.md'') = 60"
  "score ascii_lower (lit ''src/App.java'') = 10"
  by code_simp+

lemma score_application: "score ascii_lower (lit ''src/main/resources/application.yml'') = 70"
  by code_simp

text \<open>A list sorted by pairwise different scores is determined by its members.\<close>

lemma sort_by_score_unique:
  assumes "set cs = set target" and "distinct cs"
    and "sorted (map (\<lambda>p. - score lower p) target)"
    and "distinct (map (\<lambda>p. - score lower p) target)"
  shows "sort_by_score lower cs = target"
proof -
  let ?f = "\<lambda>p. - score lower p"
  let ?r = "sort_key ?f cs"
  from assms(4) have inj: "inj_on ?f (set target)" and dt: "distinct target"
    by (simp_all add: distinct_map)
  have sr: "set ?r = set target" using assms(1) by simp
  have dr: "distinct ?r" using assms(2) by simp
  have "distinct (map ?f ?r)"
    using dr inj sr by (simp add: distinct_map)
  moreover have "sorted (map ?f ?r)" by simp
  moreover have "set (map ?f ?r) = set (map ?f target)" using sr by simp
  ultimately have "map ?f ?r = map ?f target"
    using assms(3,4) by (metis sorted_distinct_set_unique)
  moreover have "inj_on ?f (set ?r \<union> set target)" using inj sr by simp
  ultimately have "?r = target" by (simp add: inj_on_map_eq_map)
  then show ?thesis by (simp add: sort_by_score_def)
qed

text \<open>
  C5, as the code has it. The candidates of a project are the signal paths among the
  members of its file set, taken in the order in which the set yields them and then sorted
  by score: the scores never increase along the ranked list, the ranked list has the same
  members as the candidate list, and candidates of equal score keep the order in which the
  set yielded them. A score is one of 100, 90, 80, 70, 60 and 10. The five paths
  \<open>main.tf\<close>, \<open>Dockerfile\<close>, \<open>package.json\<close>, \<open>README.md\<close> and \<open>src/App.java\<close>
  score 100, 90, 80, 60 and 10, and sorting them, from whatever order, gives them in this
  order.
\<close>

theorem ranked_candidates_order:
  "sorted_wrt (\<lambda>a b. score lower b \<le> score lower a)
     (ranked_candidates lower set_iter project_files)
   \<and> set (ranked_candidates lower set_iter project_files)
       = {p \<in> set (set_iter project_files). is_signal_path lower p}
   \<and> length (ranked_candidates lower set_iter project_files)
       = length (filter (is_signal_path lower) (set_iter project_files))
   \<and> (\<forall>k. filter (\<lambda>p. score lower p = k) (ranked_candidates lower set_iter project_files)
           = filter (\<lambda>p. score lower p = k)
               (filter (is_signal_path lower) (set_iter project_files)))
   \<and> score lower p \<in> {100, 90, 80, 70, 60, 10}
   \<and> map (score ascii_lower)
         [lit ''main.tf'', lit ''Dockerfile'', lit ''package.json'', lit ''README.md'',
          lit ''src/App.java'']
       = [100, 90, 80, 60, 10]
   \<and> (\<forall>cs. set cs = {lit ''main.tf'', lit ''Dockerfile'', lit ''package.json'',
                       lit ''README.md'', lit ''src/App.java''}
             \<and> distinct cs
           \<longrightarrow> sort_by_score ascii_lower cs
                 = [lit ''main.tf'', lit ''Dockerfile'', lit ''package.json'', lit ''README.md'',
                    lit ''src/App.java''])"
proof (intro conjI allI impI)
  show "sorted_wrt (\<lambda>a b. score lower b \<le> score lower a)
          (ranked_candidates lower set_iter project_files)"
    unfolding ranked_candidates_def by (rule sort_by_score_descending)
  show "set (ranked_candidates lower set_iter project_files)
          = {p \<in> set (set_iter project_files). is_signal_path lower p}"
    by (simp add: ranked_candidates_def sort_by_score_set)
  show "length (ranked_candidates lower set_iter project_files)
          = length (filter (is_signal_path lower) (set_iter project_files))"
    by (simp add: ranked_candidates_def sort_by_score_length)
  show "filter (\<lambda>p. score lower p = k) (ranked_candidates lower set_iter project_files)
          = filter (\<lambda>p. score lower p = k)
              (filter (is_signal_path lower) (set_iter project_files))" for k
    unfolding ranked_candidates_def by (rule sort_by_score_stable)
  show "score lower p \<in> {100, 90, 80, 70, 60, 10}"
    by (simp add: score_def Let_def)
  show "map (score ascii_lower)
          [lit ''main.tf'', lit ''Dockerfile'', lit ''package.json'', lit ''README.md'',
           lit ''src/App.java'']
        = [100, 90, 80, 60, 10]"
    by (simp add: score_examples)
next
  fix cs
  let ?five = "[lit ''main.tf'', lit ''Dockerfile'', lit ''package.json'', lit ''README.md'',
                lit ''src/App.java'']"
  assume h: "set cs = {lit ''main.tf'', lit ''Dockerfile'', lit ''package.json'',
                       lit ''README.md'', lit ''src/App.java''} \<and> distinct cs"
  then have a: "set cs = set ?five" and b: "distinct cs" by simp_all
  have m: "map (\<lambda>p. - score ascii_lower p) ?five = [- 100, - 90, - 80, - 60, - 10]"
    by (simp add: score_examples)
  have c: "sorted (map (\<lambda>p. - score ascii_lower p) ?five)"
    and d: "distinct (map (\<lambda>p. - score ascii_lower p) ?five)"
    unfolding m by simp_all
  show "sort_by_score ascii_lower cs = ?five"
    by (rule sort_by_score_unique [OF a b c d])
qed

theorem ranked_candidates_order_witness:
  "sort_by_score ascii_lower
     [lit ''src/App.java'', lit ''README.md'', lit ''package.json'', lit ''Dockerfile'',
      lit ''main.tf'']
   = [lit ''main.tf'', lit ''Dockerfile'', lit ''package.json'', lit ''README.md'',
      lit ''src/App.java'']"
proof -
  let ?cs = "[lit ''src/App.java'', lit ''README.md'', lit ''package.json'', lit ''Dockerfile'',
              lit ''main.tf'']"
  have s: "set ?cs = {lit ''main.tf'', lit ''Dockerfile'', lit ''package.json'',
                      lit ''README.md'', lit ''src/App.java''}"
    by auto
  have d: "distinct ?cs" by (simp add: lit_def)
  from ranked_candidates_order [of ascii_lower id "[]" "[]"] s d
  show ?thesis by blast
qed

text \<open>
  C5 as stated fails for candidates of equal score. The archive lists \<open>a.yml\<close> before
  \<open>b.yml\<close>, both are signal paths of the project \<open>.\<close> and both score 10; when the
  set yields \<open>b.yml\<close> first, \<open>b.yml\<close> is processed first.
\<close>

theorem ranked_candidates_tie_counterexample:
  "detect_project_roots [lit ''a.yml'', lit ''b.yml'']
     = [(lit ''.'', [lit ''a.yml'', lit ''b.yml''])]
   \<and> score ascii_lower (lit ''a.yml'') = 10
   \<and> score ascii_lower (lit ''b.yml'') = 10
   \<and> ranked_candidates ascii_lower rev [lit ''a.yml'', lit ''b.yml'']
       = [lit ''b.yml'', lit ''a.yml'']"
  by code_simp

section \<open>JSON text\<close>

text \<open>\<open>str(n)\<close> for an integer: its decimal digits, with a minus sign when negative.\<close>

fun dec_nat :: "nat \<Rightarrow> str" where
  "dec_nat n = (if n < 10 then [48 + n] else dec_nat (n div 10) @ [48 + n mod 10])"

declare dec_nat.simps [simp del]

definition dec_int :: "int \<Rightarrow> str" where
  "dec_int i = (if i < 0 then 45 # dec_nat (nat (- i)) else dec_nat (nat i))"

text \<open>
  \<open>json.dumps(value, ensure_ascii=False)\<close> with the default separators. In a string the
  quotation mark, the backslash and the control characters below U+0020 are escaped and
  every other character is written as it is. A float is written as its \<open>repr\<close>, except
  that the three non-finite floats have names of their own.
\<close>

definition hex_digit :: "nat \<Rightarrow> codepoint" where
  "hex_digit d = (if d < 10 then 48 + d else 87 + d)"

definition escape_char :: "codepoint \<Rightarrow> str" where
  "escape_char c =
     (if c = 34 then [92, 34]
      else if c = 92 then [92, 92]
      else if c = 10 then [92, 110]
      else if c = 13 then [92, 114]
      else if c = 9 then [92, 116]
      else if c = 8 then [92, 98]
      else if c = 12 then [92, 102]
      else if c < 32 then [92, 117, 48, 48, hex_digit (c div 16), hex_digit (c mod 16)]
      else [c])"

definition dumps_str :: "str \<Rightarrow> str" where
  "dumps_str s = [34] @ concat (map escape_char s) @ [34]"

definition dumps_float :: "str \<Rightarrow> str" where
  "dumps_float r =
     (if r = lit ''nan'' then lit ''NaN''
      else if r = lit ''inf'' then lit ''Infinity''
      else if r = lit ''-inf'' then lit ''-Infinity''
      else r)"

primrec json_dumps :: "json \<Rightarrow> str" where
  "json_dumps JNull = lit ''null''"
| "json_dumps (JBool b) = (if b then lit ''true'' else lit ''false'')"
| "json_dumps (JInt i) = dec_int i"
| "json_dumps (JFloat r) = dumps_float r"
| "json_dumps (JStr s) = dumps_str s"
| "json_dumps (JList xs) = lit ''['' @ join (lit '', '') (map json_dumps xs) @ lit '']''"
| "json_dumps (JDict kvs) =
     lit ''{''
     @ join (lit '', '')
         (map (\<lambda>kv. dumps_str (fst kv) @ lit '': '' @ snd kv) (map (map_prod id json_dumps) kvs))
     @ lit ''}''"

section \<open>Subscription\<close>

text \<open>
  \<open>value[key]\<close> for a string key and \<open>value[0]\<close>, with the exception each raises on a
  value of another kind.
\<close>

definition getitem :: "json \<Rightarrow> str \<Rightarrow> error + json" where
  "getitem v key =
     (case v of
        JDict kvs \<Rightarrow> (case map_of kvs key of None \<Rightarrow> Inl KeyError | Some x \<Rightarrow> Inr x)
      | _ \<Rightarrow> Inl TypeError)"

definition getitem0 :: "json \<Rightarrow> error + json" where
  "getitem0 v =
     (case v of
        JList xs \<Rightarrow> (case xs of [] \<Rightarrow> Inl IndexError | x # _ \<Rightarrow> Inr x)
      | JStr s \<Rightarrow> (case s of [] \<Rightarrow> Inl IndexError | c # _ \<Rightarrow> Inr (JStr [c]))
      | JDict kvs \<Rightarrow> Inl KeyError
      | _ \<Rightarrow> Inl TypeError)"

section \<open>The guarded call of the model\<close>

definition PAYLOAD_SOFT_CAP_BYTES :: nat where
  "PAYLOAD_SOFT_CAP_BYTES = 1200000"

definition MODEL_ID :: str where
  "MODEL_ID = lit ''arn:aws:bedrock:ap-northeast-2:273354645391:inference-profile/apac.amazon.nova-pro-v1:0''"

text \<open>
  The calls made to the AWS clients, in the order in which they are made. What a call
  returns or raises is not fixed by the program: it is given by a function of the calls
  made before it and of its arguments.
\<close>

datatype call =
    GetObject str str
  | Converse str json json
  | PutObject str str "nat list" str

definition payload_messages :: "str \<Rightarrow> json" where
  "payload_messages prompt =
     JList [JDict [(lit ''role'', JStr (lit ''user'')),
                   (lit ''content'', JList [JDict [(lit ''text'', JStr prompt)]])]]"

definition inference_config :: "int \<Rightarrow> json" where
  "inference_config max_tokens =
     JDict [(lit ''maxTokens'', JInt max_tokens),
            (lit ''temperature'', JFloat (lit ''0.0'')),
            (lit ''topP'', JFloat (lit ''0.9''))]"

text \<open>The dictionary that is serialized for the check.\<close>

definition payload_check :: "str \<Rightarrow> int \<Rightarrow> str" where
  "payload_check prompt max_tokens =
     json_dumps (JDict [(lit ''messages'', payload_messages prompt),
                        (lit ''inferenceConfig'', inference_config max_tokens)])"

text \<open>The message of the \<open>ValueError\<close>.\<close>

definition prompt_too_large :: "nat \<Rightarrow> str" where
  "prompt_too_large payload_bytes =
     lit ''Prompt too large: '' @ dec_nat payload_bytes @ lit '' bytes (cap=''
     @ dec_nat PAYLOAD_SOFT_CAP_BYTES @ lit '')''"

text \<open>\<open>resp['output']['message']['content'][0]['text']\<close>.\<close>

definition response_text :: "json \<Rightarrow> error + json" where
  "response_text resp =
     (case getitem resp (lit ''output'') of Inl e \<Rightarrow> Inl e | Inr out \<Rightarrow>
      case getitem out (lit ''message'') of Inl e \<Rightarrow> Inl e | Inr msg \<Rightarrow>
      case getitem msg (lit ''content'') of Inl e \<Rightarrow> Inl e | Inr content \<Rightarrow>
      case getitem0 content of Inl e \<Rightarrow> Inl e | Inr first \<Rightarrow>
      getitem first (lit ''text''))"

text \<open>
  \<open>safe_invoke_bedrock\<close> returns its result, or the exception it raises, together with
  the calls made so far. \<open>bedrock_converse\<close> gives the outcome of \<open>bedrock.converse\<close>.
\<close>

definition safe_invoke_bedrock ::
  "(call list \<Rightarrow> str \<Rightarrow> json \<Rightarrow> json \<Rightarrow> error + json) \<Rightarrow> call list \<Rightarrow> str \<Rightarrow> int
     \<Rightarrow> (error + json) \<times> call list" where
  "safe_invoke_bedrock bedrock_converse calls prompt max_tokens =
     (case utf8_encode (payload_check prompt max_tokens) of
        Inl e \<Rightarrow> (Inl e, calls)
      | Inr encoded \<Rightarrow>
          (let payload_bytes = length encoded
           in if payload_bytes > PAYLOAD_SOFT_CAP_BYTES
              then (Inl (ValueError (prompt_too_large payload_bytes)), calls)
              else
                (let messages = payload_messages prompt;
                     config = inference_config max_tokens;
                     calls' = calls @ [Converse MODEL_ID messages config]
                 in case bedrock_converse calls MODEL_ID messages config of
                      Inl e \<Rightarrow> (Inl e, calls')
                    | Inr resp \<Rightarrow> (response_text resp, calls'))))"

subsection \<open>Properties of the guard\<close>

lemma hex_digit_valid: "d < 16 \<Longrightarrow> valid_cp (hex_digit d)"
  by (simp add: hex_digit_def valid_cp_def)

lemma escape_char_valid:
  assumes "valid_cp c"
  shows "list_all valid_cp (escape_char c)"
proof (cases "c < 32")
  case True
  then have "c div 16 < 16" by simp
  then have a: "valid_cp (hex_digit (c div 16))" by (rule hex_digit_valid)
  have "c mod 16 < 16" by simp
  then have b: "valid_cp (hex_digit (c mod 16))" by (rule hex_digit_valid)
  have "valid_cp 92" "valid_cp 34" "valid_cp 110" "valid_cp 114" "valid_cp 116" "valid_cp 98"
    "valid_cp 102" "valid_cp 117" "valid_cp 48"
    by (simp_all add: valid_cp_def)
  with a b True show ?thesis by (simp add: escape_char_def)
next
  case False
  have "valid_cp 92" "valid_cp 34" by (simp_all add: valid_cp_def)
  with False assms show ?thesis by (simp add: escape_char_def)
qed

lemma dumps_str_valid: "list_all valid_cp s \<Longrightarrow> list_all valid_cp (dumps_str s)"
proof -
  assume v: "list_all valid_cp s"
  have "list_all valid_cp (concat (map escape_char s))"
    using v by (induction s) (simp_all add: escape_char_valid)
  then show ?thesis by (simp add: dumps_str_def valid_cp_def)
qed

lemma dec_nat_valid: "list_all valid_cp (dec_nat n)"
proof (induction n rule: dec_nat.induct)
  case (1 n)
  show ?case
  proof (cases "n < 10")
    case True
    then show ?thesis by (simp add: dec_nat.simps [of n] valid_cp_def)
  next
    case False
    then have "list_all valid_cp (dec_nat (n div 10))" using 1 by simp
    moreover have "valid_cp (48 + n mod 10)"
    proof -
      have "n mod 10 < 10" by simp
      then have "48 + n mod 10 < 55296" by linarith
      then show ?thesis by (simp only: valid_cp_def) simp
    qed
    ultimately show ?thesis using False by (simp add: dec_nat.simps [of n])
  qed
qed

lemma dec_int_valid: "list_all valid_cp (dec_int i)"
  by (simp add: dec_int_def dec_nat_valid valid_cp_def)

lemma lit_valid: "list_all valid_cp (lit x)"
proof -
  have "valid_cp (of_char c)" for c :: char
  proof -
    have "(of_char c :: nat) < 256" by simp
    then have "(of_char c :: nat) < 55296" by linarith
    then show ?thesis by (simp add: valid_cp_def)
  qed
  then show ?thesis by (simp add: lit_def list_all_iff)
qed

lemma dumps_float_finite:
  "dumps_float (lit ''0.0'') = lit ''0.0''" "dumps_float (lit ''0.9'') = lit ''0.9''"
  by (simp_all add: dumps_float_def lit_def)

text \<open>The text that is measured: the whole request, with the prompt as a JSON string.\<close>

lemma payload_check_text:
  \<open>payload_check prompt max_tokens
     = lit ''{"messages": [{"role": "user", "content": [{"text": '' @ dumps_str prompt
       @ lit ''}]}], "inferenceConfig": {"maxTokens": '' @ dec_int max_tokens
       @ lit '', "temperature": 0.0, "topP": 0.9}}''\<close>
  by (simp add: payload_check_def payload_messages_def inference_config_def dumps_float_finite)
     (simp add: dumps_str_def escape_char_def lit_def)

lemma payload_check_valid:
  assumes "list_all valid_cp prompt"
  shows "list_all valid_cp (payload_check prompt max_tokens)"
  unfolding payload_check_text
  using assms by (simp add: dumps_str_valid lit_valid dec_int_valid)

text \<open>
  C8. For a prompt that can be encoded, \<open>safe_invoke_bedrock\<close> measures the UTF-8
  encoding of the serialized request, which holds the messages and the inference
  configuration. When it has more than \<open>PAYLOAD_SOFT_CAP_BYTES\<close> bytes the function
  raises \<open>ValueError\<close> with a message naming the size and the cap, and no call is made.
  Otherwise exactly one call of \<open>converse\<close> is made, with these messages and this
  configuration, and the function returns the text of the reply or raises what the call or
  the reading of the reply raises. So the list of calls is unchanged exactly when the size
  exceeds the cap.
\<close>

theorem safe_invoke_bedrock_guard:
  assumes "list_all valid_cp prompt"
  shows \<open>(PAYLOAD_SOFT_CAP_BYTES < length (utf8_bytes (payload_check prompt max_tokens)) \<longrightarrow>
            safe_invoke_bedrock bedrock_converse calls prompt max_tokens
              = (Inl (ValueError
                   (prompt_too_large (length (utf8_bytes (payload_check prompt max_tokens))))),
                 calls))
       \<and> (length (utf8_bytes (payload_check prompt max_tokens)) \<le> PAYLOAD_SOFT_CAP_BYTES \<longrightarrow>
            safe_invoke_bedrock bedrock_converse calls prompt max_tokens
              = ((case bedrock_converse calls MODEL_ID (payload_messages prompt)
                        (inference_config max_tokens) of
                    Inl e \<Rightarrow> Inl e
                  | Inr resp \<Rightarrow> response_text resp),
                 calls @ [Converse MODEL_ID (payload_messages prompt)
                            (inference_config max_tokens)]))
       \<and> (snd (safe_invoke_bedrock bedrock_converse calls prompt max_tokens) = calls
            \<longleftrightarrow> PAYLOAD_SOFT_CAP_BYTES < length (utf8_bytes (payload_check prompt max_tokens)))
       \<and> payload_check prompt max_tokens
           = lit ''{"messages": [{"role": "user", "content": [{"text": '' @ dumps_str prompt
             @ lit ''}]}], "inferenceConfig": {"maxTokens": '' @ dec_int max_tokens
             @ lit '', "temperature": 0.0, "topP": 0.9}}''
       \<and> PAYLOAD_SOFT_CAP_BYTES = 1200000\<close>
proof -
  let ?n = "length (utf8_bytes (payload_check prompt max_tokens))"
  let ?r = "safe_invoke_bedrock bedrock_converse calls prompt max_tokens"
  have enc: "utf8_encode (payload_check prompt max_tokens)
               = Inr (utf8_bytes (payload_check prompt max_tokens))"
    using payload_check_valid [OF assms] by (simp add: utf8_encode_def)
  have big: "?r = (Inl (ValueError (prompt_too_large ?n)), calls)"
    if "PAYLOAD_SOFT_CAP_BYTES < ?n"
    using that by (simp add: safe_invoke_bedrock_def enc Let_def)
  have small: "?r = ((case bedrock_converse calls MODEL_ID (payload_messages prompt)
                             (inference_config max_tokens) of
                        Inl e \<Rightarrow> Inl e
                      | Inr resp \<Rightarrow> response_text resp),
                     calls @ [Converse MODEL_ID (payload_messages prompt)
                                (inference_config max_tokens)])"
    if "?n \<le> PAYLOAD_SOFT_CAP_BYTES"
    using that by (simp add: safe_invoke_bedrock_def enc Let_def split: sum.split)
  have iff: "snd ?r = calls \<longleftrightarrow> PAYLOAD_SOFT_CAP_BYTES < ?n"
  proof (cases "PAYLOAD_SOFT_CAP_BYTES < ?n")
    case True
    with big show ?thesis by simp
  next
    case False
    then have "?n \<le> PAYLOAD_SOFT_CAP_BYTES" by simp
    from small [OF this] False show ?thesis by simp
  qed
  from big small iff show ?thesis
    by (simp only: payload_check_text [symmetric] PAYLOAD_SOFT_CAP_BYTES_def) simp
qed

text \<open>A prompt of 1200000 letters \<open>x\<close>: the request has 1200132 bytes and is refused.\<close>

lemma dumps_str_replicate: "dumps_str (replicate n 120) = [34] @ replicate n 120 @ [34]"
proof -
  have "concat (map escape_char (replicate n 120)) = replicate n 120"
    by (induction n) (simp_all add: escape_char_def)
  then show ?thesis by (simp add: dumps_str_def)
qed

lemma dec_1500: "dec_int 1500 = lit ''1500''"
  by (simp add: dec_int_def dec_nat.simps lit_def)

lemma long_prompt_bytes:
  "length (utf8_bytes (payload_check (replicate 1200000 120) 1500)) = 1200132"
proof -
  have a: "utf8_bytes (replicate 1200000 120) = replicate 1200000 120"
    by (rule utf8_bytes_ascii) simp
  show ?thesis
    unfolding payload_check_text dumps_str_replicate dec_1500 utf8_bytes_append a
    by (simp add: utf8_bytes_def utf8_char_def lit_def)
qed

lemma long_prompt_message:
  "prompt_too_large 1200132 = lit ''Prompt too large: 1200132 bytes (cap=1200000)''"
  by (simp add: prompt_too_large_def PAYLOAD_SOFT_CAP_BYTES_def dec_nat.simps lit_def)

theorem safe_invoke_bedrock_guard_witness:
  "list_all valid_cp (replicate 1200000 120)
   \<and> safe_invoke_bedrock (\<lambda>calls model messages config. Inr JNull) []
         (replicate 1200000 120) 1500
       = (Inl (ValueError (lit ''Prompt too large: 1200132 bytes (cap=1200000)'')), [])"
proof -
  have v: "list_all valid_cp (replicate 1200000 120)"
    by (simp add: list_all_iff valid_cp_def)
  have b: "PAYLOAD_SOFT_CAP_BYTES
             < length (utf8_bytes (payload_check (replicate 1200000 120) 1500))"
    by (simp add: long_prompt_bytes PAYLOAD_SOFT_CAP_BYTES_def)
  from safe_invoke_bedrock_guard [OF v, of 1500 "\<lambda>calls model messages config. Inr JNull" "[]"] b
  have "safe_invoke_bedrock (\<lambda>calls model messages config. Inr JNull) []
          (replicate 1200000 120) 1500
        = (Inl (ValueError (prompt_too_large
              (length (utf8_bytes (payload_check (replicate 1200000 120) 1500))))), [])"
    by blast
  with v show ?thesis by (simp only: long_prompt_bytes long_prompt_message)
qed

end
